theory Spec2Isabelle
  imports Main "HOL-Library.Word"
begin

section \<open>Alias generation of ld-find-code-refs (coderefs/alias.go)\<close>

text \<open>
  The theory embeds the three functions of \<^verbatim>\<open>coderefs/alias.go\<close>:
  \<^verbatim>\<open>GenerateAliases\<close>, \<^verbatim>\<open>generateAlias\<close> and \<^verbatim>\<open>processFileContent\<close>, with
  their helper \<^verbatim>\<open>globToAbsolutePaths\<close>.

  Go byte slices and strings are \<open>string\<close> (a list of bytes). A nil slice and an empty
  slice are both the empty list: the code only appends to them and takes their length.
  A Go map is a partial function; reading a missing key gives the zero value.
\<close>

type_synonym bytes = string

subsection \<open>Results, errors and panics\<close>

text \<open>
  Each \<^verbatim>\<open>fmt.Errorf\<close> of the source is one constructor, holding the values the message
  is formatted from (the two glob errors print \<^verbatim>\<open>filepath.Join\<close> of the directory and the
  pattern). A Go function either returns its value with a nil error (\<open>Ok\<close>), returns nil with
  an error (\<open>Err\<close>), or does not return because it panics (\<open>Panic\<close>).
\<close>

datatype error =
    GlobError string string
  | CacheGlobError string string string
  | MissingFileError string string
  | FileReadError string string string
  | CommandExecutionError string
  | CommandOutputError string

datatype panic =
    NilPointerDereference
  | MustCompilePanic string
  | IndexOutOfRange

datatype 'a outcome = Ok 'a | Err error | Panic panic

subsection \<open>Alias rules\<close>

text \<open>
  \<^verbatim>\<open>options.Alias\<close> is declared outside \<^verbatim>\<open>alias.go\<close>; the record has the fields the code
  reads. \<open>Command\<close> and \<open>Timeout\<close> are pointers (\<^verbatim>\<open>*a.Command\<close>, \<^verbatim>\<open>*a.Timeout\<close>), so they
  are options; the timeout is taken to be a 64-bit signed integer.

  The switch of \<^verbatim>\<open>generateAlias\<close> compares \<^verbatim>\<open>a.Type.Canonical()\<close> with nine constants of
  package \<^verbatim>\<open>options\<close>. \<open>alias_type\<close> has one constructor for each of them and
  \<open>options_Unrecognized\<close> for every other canonical value.
\<close>

datatype alias_type =
    options_Literal
  | options_CamelCase
  | options_PascalCase
  | options_SnakeCase
  | options_UpperSnakeCase
  | options_KebabCase
  | options_DotCase
  | options_FilePattern
  | options_Command
  | options_Unrecognized string

record Alias =
  Type :: string
  Name :: string
  Flags :: "string \<rightharpoonup> string list"
  Paths :: "string list"
  Patterns :: "string list"
  Command :: "string option"
  Timeout :: "64 word option"

subsection \<open>The world outside the package\<close>

text \<open>
  \<^verbatim>\<open>exec.Cmd\<close> as the code fills it: the executable, its arguments, the standard input, the
  working directory, and the duration of the context's deadline when there is one
  (\<^verbatim>\<open>time.Second * time.Duration(*a.Timeout)\<close>, which wraps in 64 bits).
\<close>

record Cmd =
  Path :: string
  Args :: "string list"
  Stdin :: string
  Dir :: string
  Deadline :: "64 word option"

text \<open>
  The functions of other packages are parameters: the case converters of \<^verbatim>\<open>strcase\<close>,
  \<^verbatim>\<open>doublestar.Glob\<close> over \<^verbatim>\<open>os.DirFS\<close> (\<open>None\<close> when it fails),
  \<^verbatim>\<open>validation.FileExists\<close>, \<^verbatim>\<open>ioutil.ReadFile\<close>, the regular expressions of \<^verbatim>\<open>regexp\<close>
  (\<open>Compiles\<close> says whether \<^verbatim>\<open>regexp.Compile\<close> accepts an expression;
  \<open>FindAllStringSubmatch\<close> gives, for each match, the whole match followed by its capture
  groups), \<^verbatim>\<open>cmd.Output\<close> and \<^verbatim>\<open>json.Unmarshal\<close> into a string slice. Globbing, the
  existence test and reading depend on the world \<open>'w\<close> (the file system) and leave it as it
  is; running a command may change it.
\<close>

record 'w env =
  Canonical :: "string \<Rightarrow> alias_type"
  ToLowerCamel :: "string \<Rightarrow> string"
  ToCamel :: "string \<Rightarrow> string"
  ToSnake :: "string \<Rightarrow> string"
  ToScreamingSnake :: "string \<Rightarrow> string"
  ToKebab :: "string \<Rightarrow> string"
  ToDelimited :: "string \<Rightarrow> char \<Rightarrow> string"
  Glob :: "'w \<Rightarrow> string \<Rightarrow> string \<Rightarrow> string list option"
  FileExists :: "'w \<Rightarrow> string \<Rightarrow> bool"
  ReadFile :: "'w \<Rightarrow> string \<Rightarrow> string + bytes"
  Compiles :: "string \<Rightarrow> bool"
  FindAllStringSubmatch :: "string \<Rightarrow> string \<Rightarrow> string list list"
  Output :: "Cmd \<Rightarrow> 'w \<Rightarrow> (string + bytes) \<times> 'w"
  Unmarshal :: "bytes \<Rightarrow> string + string list"

text \<open>
  The state threaded through the code: the world, and the trace of the calls made to it,
  oldest first.
\<close>

datatype event =
    EvGlob string string
  | EvFileExists string
  | EvReadFile string
  | EvRun Cmd

record 'w state =
  world :: 'w
  trace :: "event list"

definition record_event :: "event \<Rightarrow> 'w state \<Rightarrow> 'w state" where
  "record_event ev s = s\<lparr>trace := trace s @ [ev]\<rparr>"

subsection \<open>Library functions with a fixed meaning\<close>

text \<open>
  Modelled from the spec: \<^verbatim>\<open>helpers.Dedupe\<close> is code of the repository outside
  \<^verbatim>\<open>alias.go\<close>. The specification describes it as a stable deduplication in which the
  first occurrence of a string keeps its position.
\<close>

fun Dedupe :: "string list \<Rightarrow> string list" where
  "Dedupe [] = []"
| "Dedupe (x # xs) = x # filter (\<lambda>y. y \<noteq> x) (Dedupe xs)"

text \<open>
  \<^verbatim>\<open>strings.Split(s, sep)\<close> for a separator of one byte: the pieces between the
  separators, so that \<open>n\<close> separators give \<open>n + 1\<close> pieces, some of them possibly empty.
\<close>

fun Split :: "string \<Rightarrow> char \<Rightarrow> string list" where
  "Split [] sep = [[]]"
| "Split (c # cs) sep =
     (if c = sep then [] # Split cs sep
      else (case Split cs sep of
              [] \<Rightarrow> [[c]]
            | t # ts \<Rightarrow> (c # t) # ts))"

text \<open>
  \<^verbatim>\<open>strings.ReplaceAll(s, old, new)\<close>: the non-overlapping occurrences of \<open>old\<close> are
  replaced from left to right. The source calls it only with \<open>old\<close> the placeholder
  \<^verbatim>\<open>FLAG_KEY\<close>; for an empty \<open>old\<close> Go inserts \<open>new\<close> before every UTF-8 sequence and at the
  end, which is written here for single-byte characters.
\<close>

function ReplaceAll :: "string \<Rightarrow> string \<Rightarrow> string \<Rightarrow> string" where
  "ReplaceAll s old new =
     (if old = [] then new @ concat (map (\<lambda>c. c # new) s)
      else if s = [] then []
      else if take (length old) s = old then new @ ReplaceAll (drop (length old) s) old new
      else hd s # ReplaceAll (tl s) old new)"
  by pat_completeness auto
termination
  by (relation "measure (\<lambda>(s, old, new). length s)") auto

declare ReplaceAll.simps [simp del]

definition FLAG_KEY :: string where
  "FLAG_KEY = ''FLAG_KEY''"

text \<open>\<^verbatim>\<open>strconv.Itoa\<close> on the index of a rule, which is never negative.\<close>

definition digit :: "nat \<Rightarrow> char" where
  "digit d = ''0123456789'' ! d"

fun Itoa :: "nat \<Rightarrow> string" where
  "Itoa n = (if n < 10 then [digit n] else Itoa (n div 10) @ [digit (n mod 10)])"

declare Itoa.simps [simp del]

text \<open>Reading a Go map of slices: a missing key reads as the nil slice.\<close>

definition lookup :: "(string \<rightharpoonup> 'a list) \<Rightarrow> string \<Rightarrow> 'a list" where
  "lookup m k = (case m k of None \<Rightarrow> [] | Some v \<Rightarrow> v)"

subsection \<open>globToAbsolutePaths\<close>

text \<open>
  The matches of the glob, each prefixed with the base path and a slash. The loop of the
  source writes into the array it ranges over, one slot behind its reads, so it is a map.
\<close>

definition globToAbsolutePaths ::
  "'w env \<Rightarrow> string \<Rightarrow> string \<Rightarrow> 'w state \<Rightarrow> string list outcome \<times> 'w state" where
  "globToAbsolutePaths E basepath pattern s =
     (case Glob E (world s) basepath pattern of
        None \<Rightarrow> (Err (GlobError basepath pattern), record_event (EvGlob basepath pattern) s)
      | Some matches \<Rightarrow>
          (Ok (map (\<lambda>match. basepath @ ''/'' @ match) matches),
           record_event (EvGlob basepath pattern) s))"

subsection \<open>generateAlias\<close>

text \<open>Lines 86 to 91: the cached contents of the matches of one glob are appended.\<close>

fun appendContents :: "(string \<rightharpoonup> bytes) \<Rightarrow> string list \<Rightarrow> bytes \<Rightarrow> bytes" where
  "appendContents allFileContents [] fileContents = fileContents"
| "appendContents allFileContents (match # matches) fileContents =
     appendContents allFileContents matches
       (if length (lookup allFileContents match) > 0
        then fileContents @ lookup allFileContents match
        else fileContents)"

text \<open>Lines 81 to 92: the loop over the path globs of a file-pattern rule.\<close>

fun concatFiles ::
  "'w env \<Rightarrow> string \<Rightarrow> (string \<rightharpoonup> bytes) \<Rightarrow> string list \<Rightarrow> bytes \<Rightarrow> 'w state
    \<Rightarrow> bytes outcome \<times> 'w state" where
  "concatFiles E dir allFileContents [] fileContents s = (Ok fileContents, s)"
| "concatFiles E dir allFileContents (path # paths) fileContents s =
     (case globToAbsolutePaths E dir path s of
        (Ok matches, s') \<Rightarrow>
          concatFiles E dir allFileContents paths
            (appendContents allFileContents matches fileContents) s'
      | (Err e, s') \<Rightarrow> (Err (GlobError dir path), s')
      | (Panic p, s') \<Rightarrow> (Panic p, s'))"

text \<open>Lines 97 to 101: the capture groups of the matches of one pattern.\<close>

fun appendGroups :: "string list list \<Rightarrow> string list \<Rightarrow> string list" where
  "appendGroups [] ret = ret"
| "appendGroups (res # results) ret =
     appendGroups results (if length res > 1 then ret @ tl res else ret)"

text \<open>
  Lines 94 to 102: the loop over the patterns. \<^verbatim>\<open>regexp.MustCompile\<close> panics on an
  expression that does not compile.
\<close>

fun matchPatterns ::
  "'w env \<Rightarrow> string list \<Rightarrow> string \<Rightarrow> bytes \<Rightarrow> string list \<Rightarrow> string list outcome" where
  "matchPatterns E [] flag fileContents ret = Ok ret"
| "matchPatterns E (p # ps) flag fileContents ret =
     (if \<not> Compiles E (ReplaceAll p FLAG_KEY flag)
      then Panic (MustCompilePanic (ReplaceAll p FLAG_KEY flag))
      else matchPatterns E ps flag fileContents
             (appendGroups
                (FindAllStringSubmatch E (ReplaceAll p FLAG_KEY flag) fileContents) ret))"

text \<open>Lines 105 to 109: a deadline only for a timeout that is present and positive.\<close>

definition deadline :: "64 word option \<Rightarrow> 64 word option" where
  "deadline timeout =
     (case timeout of
        None \<Rightarrow> None
      | Some t \<Rightarrow> if 0 < sint t then Some (1000000000 * t) else None)"

text \<open>Lines 110 to 127: the command rule, once the command string is there.\<close>

definition runCommand ::
  "'w env \<Rightarrow> Alias \<Rightarrow> string \<Rightarrow> string \<Rightarrow> string \<Rightarrow> 'w state
    \<Rightarrow> string list outcome \<times> 'w state" where
  "runCommand E a command flag dir s =
     (case Split command (CHR '' '') of
        [] \<Rightarrow> (Panic IndexOutOfRange, s)
      | name # args \<Rightarrow>
          (let cmd = \<lparr>Path = name, Args = args, Stdin = flag, Dir = dir,
                      Deadline = deadline (Timeout a)\<rparr>;
               s' = record_event (EvRun cmd) (s\<lparr>world := snd (Output E cmd (world s))\<rparr>)
           in case fst (Output E cmd (world s)) of
                Inl cause \<Rightarrow> (Err (CommandExecutionError cause), s')
              | Inr stdout \<Rightarrow>
                  (case Unmarshal E stdout of
                     Inl cause \<Rightarrow> (Err (CommandOutputError cause), s')
                   | Inr ret \<Rightarrow> (Ok ret, s'))))"

definition generateAlias ::
  "'w env \<Rightarrow> Alias \<Rightarrow> string \<Rightarrow> string \<Rightarrow> (string \<rightharpoonup> bytes) \<Rightarrow> 'w state
    \<Rightarrow> string list outcome \<times> 'w state" where
  "generateAlias E a flag dir allFileContents s =
     (case Canonical E (Type a) of
        options_Literal \<Rightarrow> (Ok (lookup (Flags a) flag), s)
      | options_CamelCase \<Rightarrow> (Ok [ToLowerCamel E flag], s)
      | options_PascalCase \<Rightarrow> (Ok [ToCamel E flag], s)
      | options_SnakeCase \<Rightarrow> (Ok [ToSnake E flag], s)
      | options_UpperSnakeCase \<Rightarrow> (Ok [ToScreamingSnake E flag], s)
      | options_KebabCase \<Rightarrow> (Ok [ToKebab E flag], s)
      | options_DotCase \<Rightarrow> (Ok [ToDelimited E flag (CHR ''.'')], s)
      | options_FilePattern \<Rightarrow>
          (case concatFiles E dir allFileContents (Paths a) [] s of
             (Ok fileContents, s') \<Rightarrow>
               (matchPatterns E (Patterns a) flag fileContents [], s')
           | (Err e, s') \<Rightarrow> (Err e, s')
           | (Panic p, s') \<Rightarrow> (Panic p, s'))
      | options_Command \<Rightarrow>
          (case Command a of
             None \<Rightarrow> (Panic NilPointerDereference, s)
           | Some command \<Rightarrow> runCommand E a command flag dir s)
      | options_Unrecognized other \<Rightarrow> (Ok [], s))"

subsection \<open>processFileContent\<close>

text \<open>Lines 147 to 154: the matches of all globs of one rule, in order.\<close>

fun collectPaths ::
  "'w env \<Rightarrow> string \<Rightarrow> string \<Rightarrow> string list \<Rightarrow> string list \<Rightarrow> 'w state
    \<Rightarrow> string list outcome \<times> 'w state" where
  "collectPaths E aliasId dir [] paths s = (Ok paths, s)"
| "collectPaths E aliasId dir (glob # globs) paths s =
     (case globToAbsolutePaths E dir glob s of
        (Ok matches, s') \<Rightarrow> collectPaths E aliasId dir globs (paths @ matches) s'
      | (Err e, s') \<Rightarrow> (Err (CacheGlobError aliasId dir glob), s')
      | (Panic p, s') \<Rightarrow> (Panic p, s'))"

text \<open>Lines 157 to 172: the paths not yet in the cache are checked and read.\<close>

fun readPaths ::
  "'w env \<Rightarrow> string \<Rightarrow> string list \<Rightarrow> (string \<rightharpoonup> bytes) \<Rightarrow> 'w state
    \<Rightarrow> (string \<rightharpoonup> bytes) outcome \<times> 'w state" where
  "readPaths E aliasId [] allFileContents s = (Ok allFileContents, s)"
| "readPaths E aliasId (path # paths) allFileContents s =
     (if allFileContents path \<noteq> None then readPaths E aliasId paths allFileContents s
      else if \<not> FileExists E (world s) path
      then (Err (MissingFileError aliasId path), record_event (EvFileExists path) s)
      else (case ReadFile E (world s) path of
              Inl cause \<Rightarrow>
                (Err (FileReadError aliasId path cause),
                 record_event (EvReadFile path) (record_event (EvFileExists path) s))
            | Inr data \<Rightarrow>
                readPaths E aliasId paths (allFileContents(path \<mapsto> data))
                  (record_event (EvReadFile path) (record_event (EvFileExists path) s))))"

text \<open>Lines 136 to 173: the loop over the rules, with the index of the rule.\<close>

fun cacheRules ::
  "'w env \<Rightarrow> string \<Rightarrow> nat \<Rightarrow> Alias list \<Rightarrow> (string \<rightharpoonup> bytes) \<Rightarrow> 'w state
    \<Rightarrow> (string \<rightharpoonup> bytes) outcome \<times> 'w state" where
  "cacheRules E dir idx [] allFileContents s = (Ok allFileContents, s)"
| "cacheRules E dir idx (a # aliases) allFileContents s =
     (if Canonical E (Type a) \<noteq> options_FilePattern
      then cacheRules E dir (Suc idx) aliases allFileContents s
      else (case collectPaths E (if Name a \<noteq> [] then Name a else Itoa idx) dir (Paths a) [] s of
              (Ok paths, s') \<Rightarrow>
                (case readPaths E (if Name a \<noteq> [] then Name a else Itoa idx)
                        (Dedupe paths) allFileContents s' of
                   (Ok allFileContents', s'') \<Rightarrow>
                     cacheRules E dir (Suc idx) aliases allFileContents' s''
                 | (Err e, s'') \<Rightarrow> (Err e, s'')
                 | (Panic p, s'') \<Rightarrow> (Panic p, s''))
            | (Err e, s') \<Rightarrow> (Err e, s')
            | (Panic p, s') \<Rightarrow> (Panic p, s')))"

definition processFileContent ::
  "'w env \<Rightarrow> Alias list \<Rightarrow> string \<Rightarrow> 'w state \<Rightarrow> (string \<rightharpoonup> bytes) outcome \<times> 'w state" where
  "processFileContent E aliases dir s = cacheRules E dir 0 aliases Map.empty s"

subsection \<open>GenerateAliases\<close>

text \<open>Lines 33 to 39: the rules applied to one flag, appending to the flag's entry.\<close>

fun applyRules ::
  "'w env \<Rightarrow> Alias list \<Rightarrow> string \<Rightarrow> string \<Rightarrow> (string \<rightharpoonup> bytes)
    \<Rightarrow> (string \<rightharpoonup> string list) \<Rightarrow> 'w state
    \<Rightarrow> (string \<rightharpoonup> string list) outcome \<times> 'w state" where
  "applyRules E [] flag dir allFileContents ret s = (Ok ret, s)"
| "applyRules E (a # aliases) flag dir allFileContents ret s =
     (case generateAlias E a flag dir allFileContents s of
        (Ok flagAliases, s') \<Rightarrow>
          applyRules E aliases flag dir allFileContents
            (ret(flag \<mapsto> lookup ret flag @ flagAliases)) s'
      | (Err e, s') \<Rightarrow> (Err e, s')
      | (Panic p, s') \<Rightarrow> (Panic p, s'))"

text \<open>Lines 32 to 41: the loop over the flags, deduplicating each flag's entry.\<close>

fun applyFlags ::
  "'w env \<Rightarrow> string list \<Rightarrow> Alias list \<Rightarrow> string \<Rightarrow> (string \<rightharpoonup> bytes)
    \<Rightarrow> (string \<rightharpoonup> string list) \<Rightarrow> 'w state
    \<Rightarrow> (string \<rightharpoonup> string list) outcome \<times> 'w state" where
  "applyFlags E [] aliases dir allFileContents ret s = (Ok ret, s)"
| "applyFlags E (flag # flags) aliases dir allFileContents ret s =
     (case applyRules E aliases flag dir allFileContents ret s of
        (Ok ret', s') \<Rightarrow>
          applyFlags E flags aliases dir allFileContents
            (ret'(flag \<mapsto> Dedupe (lookup ret' flag))) s'
      | (Err e, s') \<Rightarrow> (Err e, s')
      | (Panic p, s') \<Rightarrow> (Panic p, s'))"

definition GenerateAliases ::
  "'w env \<Rightarrow> string list \<Rightarrow> Alias list \<Rightarrow> string \<Rightarrow> 'w state
    \<Rightarrow> (string \<rightharpoonup> string list) outcome \<times> 'w state" where
  "GenerateAliases E flags aliases dir s =
     (case processFileContent E aliases dir s of
        (Ok allFileContents, s') \<Rightarrow>
          applyFlags E flags aliases dir allFileContents Map.empty s'
      | (Err e, s') \<Rightarrow> (Err e, s')
      | (Panic p, s') \<Rightarrow> (Panic p, s'))"

subsection \<open>The specification's description of the driver\<close>

text \<open>
  The specification describes the driver in two steps: every rule is dispatched for every
  flag, in the order of the flags and of the rules, stopping at the first failure; then each
  flag's entry is the stable deduplication of the concatenation of the outputs dispatched
  for it. \<open>dispatchRules\<close> gives the outputs of the rules for one flag, \<open>dispatchFlags\<close> pairs
  each flag with the concatenation of its outputs, and \<open>aliasesFor\<close> is the resulting mapping.
\<close>

fun dispatchRules ::
  "'w env \<Rightarrow> Alias list \<Rightarrow> string \<Rightarrow> string \<Rightarrow> (string \<rightharpoonup> bytes) \<Rightarrow> 'w state
    \<Rightarrow> string list list outcome \<times> 'w state" where
  "dispatchRules E [] flag dir allFileContents s = (Ok [], s)"
| "dispatchRules E (a # aliases) flag dir allFileContents s =
     (case generateAlias E a flag dir allFileContents s of
        (Ok out, s') \<Rightarrow>
          (case dispatchRules E aliases flag dir allFileContents s' of
             (Ok outs, s'') \<Rightarrow> (Ok (out # outs), s'')
           | (Err e, s'') \<Rightarrow> (Err e, s'')
           | (Panic p, s'') \<Rightarrow> (Panic p, s''))
      | (Err e, s') \<Rightarrow> (Err e, s')
      | (Panic p, s') \<Rightarrow> (Panic p, s'))"

fun dispatchFlags ::
  "'w env \<Rightarrow> string list \<Rightarrow> Alias list \<Rightarrow> string \<Rightarrow> (string \<rightharpoonup> bytes) \<Rightarrow> 'w state
    \<Rightarrow> (string \<times> string list) list outcome \<times> 'w state" where
  "dispatchFlags E [] aliases dir allFileContents s = (Ok [], s)"
| "dispatchFlags E (flag # flags) aliases dir allFileContents s =
     (case dispatchRules E aliases flag dir allFileContents s of
        (Ok outs, s') \<Rightarrow>
          (case dispatchFlags E flags aliases dir allFileContents s' of
             (Ok rest, s'') \<Rightarrow> (Ok ((flag, concat outs) # rest), s'')
           | (Err e, s'') \<Rightarrow> (Err e, s'')
           | (Panic p, s'') \<Rightarrow> (Panic p, s''))
      | (Err e, s') \<Rightarrow> (Err e, s')
      | (Panic p, s') \<Rightarrow> (Panic p, s'))"

definition aliasesFor :: "(string \<times> string list) list \<Rightarrow> string \<rightharpoonup> string list" where
  "aliasesFor dispatched flag =
     (if flag \<in> fst ` set dispatched
      then Some (Dedupe (concat (map snd (filter (\<lambda>fo. fst fo = flag) dispatched))))
      else None)"

text \<open>
  The same mapping on top of entries that are already there: the loop of the source starts
  each flag from the entry the mapping holds for it.
\<close>

definition mergeDispatched ::
  "(string \<rightharpoonup> string list) \<Rightarrow> (string \<times> string list) list \<Rightarrow> string \<rightharpoonup> string list" where
  "mergeDispatched ret dispatched flag =
     (if flag \<in> fst ` set dispatched
      then Some (Dedupe (lookup ret flag
                         @ concat (map snd (filter (\<lambda>fo. fst fo = flag) dispatched))))
      else ret flag)"

text \<open>
  The specification words the argument vector of a command rule as the command string split
  on whitespace. \<open>whitespaceFields\<close> follows those words: the pieces between whitespace
  characters that are not empty. \<open>Join\<close> is \<^verbatim>\<open>strings.Join\<close> with a separator of one byte.
\<close>

definition isWhitespace :: "char \<Rightarrow> bool" where
  "isWhitespace c =
     (c = CHR '' '' \<or> c = CHR 0x09 \<or> c = CHR 0x0A \<or> c = CHR 0x0B \<or> c = CHR 0x0C \<or> c = CHR 0x0D)"

fun splitWhere :: "(char \<Rightarrow> bool) \<Rightarrow> string \<Rightarrow> string list" where
  "splitWhere sep [] = [[]]"
| "splitWhere sep (c # cs) =
     (if sep c then [] # splitWhere sep cs
      else (case splitWhere sep cs of
              [] \<Rightarrow> [[c]]
            | t # ts \<Rightarrow> (c # t) # ts))"

definition whitespaceFields :: "string \<Rightarrow> string list" where
  "whitespaceFields s = filter (\<lambda>t. t \<noteq> []) (splitWhere isWhitespace s)"

fun Join :: "string list \<Rightarrow> char \<Rightarrow> string" where
  "Join [] sep = []"
| "Join [t] sep = t"
| "Join (t # ts) sep = t @ sep # Join ts sep"

text \<open>
  The paths one glob contributes in the world \<open>w\<close>, the paths the file-pattern rules of a
  configuration name there (every match of every glob of every such rule), and the calls to
  the world recorded in a stretch of the trace.
\<close>

definition matchedPaths :: "'w env \<Rightarrow> 'w \<Rightarrow> string \<Rightarrow> string \<Rightarrow> string list" where
  "matchedPaths E w dir pattern =
     (case Glob E w dir pattern of
        None \<Rightarrow> []
      | Some matches \<Rightarrow> map (\<lambda>match. dir @ ''/'' @ match) matches)"

definition cachedPaths :: "'w env \<Rightarrow> 'w \<Rightarrow> string \<Rightarrow> Alias list \<Rightarrow> string list" where
  "cachedPaths E w dir aliases =
     concat (map (\<lambda>a. concat (map (matchedPaths E w dir) (Paths a)))
               (filter (\<lambda>a. Canonical E (Type a) = options_FilePattern) aliases))"

fun filesRead :: "event list \<Rightarrow> string list" where
  "filesRead [] = []"
| "filesRead (EvReadFile path # evs) = path # filesRead evs"
| "filesRead (ev # evs) = filesRead evs"

fun filesChecked :: "event list \<Rightarrow> string list" where
  "filesChecked [] = []"
| "filesChecked (EvFileExists path # evs) = path # filesChecked evs"
| "filesChecked (ev # evs) = filesChecked evs"

text \<open>
  What a stretch \<open>evs\<close> of the trace of the cache build may hold when the build started from
  the cache \<open>c\<close> in the world \<open>w\<close> and ended with \<open>r\<close>: no path is checked or read twice, none
  that \<open>c\<close> already held, and a cache that is returned holds \<open>c\<close> and what was read.
\<close>

definition cacheStep ::
  "'w env \<Rightarrow> 'w \<Rightarrow> (string \<rightharpoonup> bytes) \<Rightarrow> event list \<Rightarrow> (string \<rightharpoonup> bytes) outcome \<Rightarrow> bool" where
  "cacheStep E w c evs r \<longleftrightarrow>
     distinct (filesRead evs) \<and> distinct (filesChecked evs) \<and>
     set (filesRead evs) \<inter> dom c = {} \<and> set (filesChecked evs) \<inter> dom c = {} \<and>
     (\<forall>c'. r = Ok c' \<longrightarrow>
        dom c' = dom c \<union> set (filesRead evs) \<and>
        set (filesChecked evs) \<subseteq> set (filesRead evs) \<and>
        (\<forall>path\<in>dom c. c' path = c path) \<and>
        (\<forall>path\<in>set (filesRead evs). FileExists E w path \<and>
            (\<exists>data. ReadFile E w path = Inr data \<and> c' path = Some data)))"

subsection \<open>An example environment\<close>

text \<open>
  A small environment on which the functions can be run. The world is a list of files with
  their contents. Globs are file names, \<^verbatim>\<open>*\<close> for every file of the directory, and
  \<^verbatim>\<open>[\<close>, which is malformed. A regular expression is a literal text with at most one
  capture group, and compiles when its parentheses are paired. A command prints its
  standard input and appends it to a log file, except \<^verbatim>\<open>false\<close>, which fails. The
  output of a command is read as a list separated by commas.
\<close>

definition exampleCanonical :: "string \<Rightarrow> alias_type" where
  "exampleCanonical t =
     (if t = ''literal'' then options_Literal
      else if t = ''camelcase'' then options_CamelCase
      else if t = ''pascalcase'' then options_PascalCase
      else if t = ''snakecase'' then options_SnakeCase
      else if t = ''uppersnakecase'' then options_UpperSnakeCase
      else if t = ''kebabcase'' then options_KebabCase
      else if t = ''dotcase'' then options_DotCase
      else if t = ''filepattern'' then options_FilePattern
      else if t = ''command'' then options_Command
      else options_Unrecognized t)"

definition exampleGlob :: "(string \<times> bytes) list \<Rightarrow> string \<Rightarrow> string \<Rightarrow> string list option" where
  "exampleGlob w dir pattern =
     (if pattern = ''['' then None
      else Some (map (drop (Suc (length dir)))
                   (filter (\<lambda>p. take (Suc (length dir)) p = dir @ ''/'' \<and>
                                 (pattern = ''*'' \<or> drop (Suc (length dir)) p = pattern))
                      (map fst w))))"

fun findLiteral :: "string \<Rightarrow> nat \<Rightarrow> string \<Rightarrow> string list" where
  "findLiteral lit skip [] = []"
| "findLiteral lit skip (c # cs) =
     (if skip > 0 then findLiteral lit (skip - 1) cs
      else if lit \<noteq> [] \<and> take (length lit) (c # cs) = lit
      then lit # findLiteral lit (length lit - 1) cs
      else findLiteral lit 0 cs)"

definition exampleFind :: "string \<Rightarrow> string \<Rightarrow> string list list" where
  "exampleFind re text =
     map (\<lambda>m. m # (if CHR ''('' \<in> set re
                    then [takeWhile (\<lambda>c. c \<noteq> CHR '')'') (tl (dropWhile (\<lambda>c. c \<noteq> CHR ''('') re))]
                    else []))
       (findLiteral (filter (\<lambda>c. c \<noteq> CHR ''('' \<and> c \<noteq> CHR '')'') re) 0 text)"

definition exampleOutput ::
  "Cmd \<Rightarrow> (string \<times> bytes) list \<Rightarrow> (string + bytes) \<times> (string \<times> bytes) list" where
  "exampleOutput cmd w =
     (if Path cmd = ''false'' then (Inl ''exit status 1'', w)
      else (Inr (Stdin cmd), w @ [(Dir cmd @ ''/aliases.log'', Stdin cmd)]))"

definition exampleEnv :: "(string \<times> bytes) list env" where
  "exampleEnv =
     \<lparr>Canonical = exampleCanonical,
      ToLowerCamel = filter (\<lambda>c. c \<noteq> CHR ''-''),
      ToCamel = filter (\<lambda>c. c \<noteq> CHR ''-''),
      ToSnake = map (\<lambda>c. if c = CHR ''-'' then CHR ''_'' else c),
      ToScreamingSnake = map (\<lambda>c. if c = CHR ''-'' then CHR ''_'' else c),
      ToKebab = map (\<lambda>c. if c = CHR ''_'' then CHR ''-'' else c),
      ToDelimited = (\<lambda>s d. map (\<lambda>c. if c = CHR ''-'' then d else c) s),
      Glob = exampleGlob,
      FileExists = (\<lambda>w path. map_of w path \<noteq> None),
      ReadFile = (\<lambda>w path. case map_of w path of
                              None \<Rightarrow> Inl ''no such file''
                            | Some data \<Rightarrow> Inr data),
      Compiles = (\<lambda>re. count_list re (CHR ''('') = count_list re (CHR '')'')),
      FindAllStringSubmatch = exampleFind,
      Output = exampleOutput,
      Unmarshal = (\<lambda>out. if out = [] then Inl ''unexpected end of JSON input''
                          else Inr (Split out (CHR '','')))\<rparr>"

definition exampleState :: "(string \<times> bytes) list state" where
  "exampleState =
     \<lparr>world = [(''/repo/a.txt'', ''my-fl''), (''/repo/b.txt'', ''ag=myFlag;'')],
      trace = []\<rparr>"

definition filePatternRule :: Alias where
  "filePatternRule =
     \<lparr>Type = ''filepattern'', Name = [], Flags = Map.empty,
      Paths = [''a.txt'', ''*''], Patterns = [''FLAG_KEY=(myFlag)''],
      Command = None, Timeout = None\<rparr>"

definition commandRule :: "string option \<Rightarrow> Alias" where
  "commandRule command =
     \<lparr>Type = ''command'', Name = [], Flags = Map.empty, Paths = [], Patterns = [],
      Command = command, Timeout = None\<rparr>"

definition kebabRule :: Alias where
  "kebabRule =
     \<lparr>Type = ''kebabcase'', Name = [], Flags = Map.empty, Paths = [], Patterns = [],
      Command = None, Timeout = None\<rparr>"

definition badPatternRule :: Alias where
  "badPatternRule = filePatternRule\<lparr>Patterns := [''FLAG_KEY=(myFlag)'', ''(FLAG_KEY'']\<rparr>"

definition exampleCache :: "string \<rightharpoonup> bytes" where
  "exampleCache = [''/repo/a.txt'' \<mapsto> ''my-fl'', ''/repo/b.txt'' \<mapsto> ''ag=myFlag;'']"

definition noGroupRule :: Alias where
  "noGroupRule = filePatternRule\<lparr>Patterns := [''FLAG_KEY'']\<rparr>"

text \<open>The example state after the cache build for \<open>filePatternRule\<close>.\<close>

definition cachedState :: "(string \<times> bytes) list state" where
  "cachedState = exampleState\<lparr>trace :=
       [EvGlob ''/repo'' ''a.txt'', EvGlob ''/repo'' ''*'',
        EvFileExists ''/repo/a.txt'', EvReadFile ''/repo/a.txt'',
        EvFileExists ''/repo/b.txt'', EvReadFile ''/repo/b.txt'']\<rparr>"

definition exampleRules :: "Alias list" where
  "exampleRules = [kebabRule, filePatternRule, commandRule (Some ''cat -''), kebabRule]"

section \<open>Properties\<close>

lemmas example_defs = exampleEnv_def exampleState_def exampleCanonical_def exampleGlob_def
  exampleFind_def exampleOutput_def filePatternRule_def commandRule_def kebabRule_def
  badPatternRule_def exampleCache_def

lemmas run_defs = generateAlias_def runCommand_def globToAbsolutePaths_def record_event_def
  lookup_def deadline_def processFileContent_def

lemmas model_defs = run_defs FLAG_KEY_def

subsection \<open>Stable deduplication\<close>

lemma set_Dedupe: "set (Dedupe xs) = set xs"
  by (induction xs) auto

lemma distinct_Dedupe: "distinct (Dedupe xs)"
  by (induction xs) (auto simp: set_Dedupe)

lemma Dedupe_append:
  "Dedupe (xs @ ys) = Dedupe xs @ filter (\<lambda>y. y \<notin> set xs) (Dedupe ys)"
proof (induction xs)
  case Nil
  then show ?case by simp
next
  case (Cons x xs)
  have "filter (\<lambda>y. y \<noteq> x) (filter (\<lambda>y. y \<notin> set xs) (Dedupe ys)) =
        filter (\<lambda>y. y \<notin> set (x # xs)) (Dedupe ys)"
    by (simp add: conj_commute)
  with Cons show ?case by simp
qed

lemma Dedupe_distinct: "distinct xs \<Longrightarrow> Dedupe xs = xs"
proof (induction xs)
  case Nil
  then show ?case by simp
next
  case (Cons x xs)
  then have "filter (\<lambda>y. y \<noteq> x) xs = xs"
    by (intro filter_True) auto
  with Cons show ?case by simp
qed

lemma Dedupe_Dedupe_append: "Dedupe (Dedupe xs @ ys) = Dedupe (xs @ ys)"
  by (simp add: Dedupe_append [of "Dedupe xs"] Dedupe_append [of xs]
      Dedupe_distinct distinct_Dedupe set_Dedupe)

subsection \<open>The driver against the specification's description\<close>

lemma applyRules_dispatch:
  "applyRules E as f dir c ret s =
     (case dispatchRules E as f dir c s of
        (Ok outs, s') \<Rightarrow>
          (Ok (if as = [] then ret else ret(f \<mapsto> lookup ret f @ concat outs)), s')
      | (Err e, s') \<Rightarrow> (Err e, s')
      | (Panic p, s') \<Rightarrow> (Panic p, s'))"
proof (induction as arbitrary: ret s)
  case Nil
  show ?case by simp
next
  case (Cons a as)
  show ?case
    by (simp add: Cons.IH lookup_def split: prod.splits outcome.splits)
qed

lemma applyRules_entry:
  assumes "applyRules E as f dir c ret s = (Ok ret', s')"
  obtains outs where "dispatchRules E as f dir c s = (Ok outs, s')"
    and "ret'(f \<mapsto> Dedupe (lookup ret' f)) = ret(f \<mapsto> Dedupe (lookup ret f @ concat outs))"
proof -
  from assms obtain outs where d: "dispatchRules E as f dir c s = (Ok outs, s')"
    and r: "ret' = (if as = [] then ret else ret(f \<mapsto> lookup ret f @ concat outs))"
    by (auto simp: applyRules_dispatch split: prod.splits outcome.splits)
  show thesis
  proof (cases "as = []")
    case True
    with d r have "outs = []" "ret' = ret" by auto
    then show ?thesis using d that by simp
  next
    case False
    with r have "ret'(f \<mapsto> Dedupe (lookup ret' f)) =
                 ret(f \<mapsto> Dedupe (lookup ret f @ concat outs))"
      by (simp add: lookup_def)
    then show ?thesis using d that by simp
  qed
qed

lemma filter_absent: "f \<notin> fst ` set d \<Longrightarrow> filter (\<lambda>fo. fst fo = f) d = []"
  by (induction d) auto

lemma mergeDispatched_Cons:
  "mergeDispatched (ret(f \<mapsto> Dedupe (lookup ret f @ out))) d = mergeDispatched ret ((f, out) # d)"
proof
  fix g
  show "mergeDispatched (ret(f \<mapsto> Dedupe (lookup ret f @ out))) d g =
        mergeDispatched ret ((f, out) # d) g"
  proof (cases "g = f")
    case True
    then show ?thesis
      by (simp add: mergeDispatched_def lookup_def Dedupe_Dedupe_append filter_absent)
  next
    case False
    then show ?thesis
      by (simp add: mergeDispatched_def lookup_def)
  qed
qed

lemma applyFlags_dispatch:
  "applyFlags E fs as dir c ret s =
     (case dispatchFlags E fs as dir c s of
        (Ok d, s') \<Rightarrow> (Ok (mergeDispatched ret d), s')
      | (Err e, s') \<Rightarrow> (Err e, s')
      | (Panic p, s') \<Rightarrow> (Panic p, s'))"
proof (induction fs arbitrary: ret s)
  case Nil
  have "mergeDispatched ret [] = ret"
    by (rule ext) (simp add: mergeDispatched_def)
  then show ?case by simp
next
  case (Cons f fs)
  show ?case
  proof (cases "applyRules E as f dir c ret s")
    case (Pair r s1)
    show ?thesis
    proof (cases r)
      case (Ok ret')
      with Pair obtain outs where d: "dispatchRules E as f dir c s = (Ok outs, s1)"
        and e: "ret'(f \<mapsto> Dedupe (lookup ret' f)) =
                ret(f \<mapsto> Dedupe (lookup ret f @ concat outs))"
        by (auto elim: applyRules_entry)
      show ?thesis
        using Pair Ok d
        by (simp add: e Cons.IH mergeDispatched_Cons split: prod.splits outcome.splits)
    next
      case (Err x)
      with Pair show ?thesis
        by (auto simp: applyRules_dispatch split: prod.splits outcome.splits)
    next
      case (Panic x)
      with Pair show ?thesis
        by (auto simp: applyRules_dispatch split: prod.splits outcome.splits)
    qed
  qed
qed

lemma mergeDispatched_empty: "mergeDispatched Map.empty d = aliasesFor d"
  by (rule ext) (simp add: mergeDispatched_def aliasesFor_def lookup_def)

lemma GenerateAliases_dispatch:
  "GenerateAliases E flags aliases dir s =
     (case processFileContent E aliases dir s of
        (Ok allFileContents, s1) \<Rightarrow>
          (case dispatchFlags E flags aliases dir allFileContents s1 of
             (Ok dispatched, s2) \<Rightarrow> (Ok (aliasesFor dispatched), s2)
           | (Err e, s2) \<Rightarrow> (Err e, s2)
           | (Panic p, s2) \<Rightarrow> (Panic p, s2))
      | (Err e, s1) \<Rightarrow> (Err e, s1)
      | (Panic p, s1) \<Rightarrow> (Panic p, s1))"
  by (simp add: GenerateAliases_def applyFlags_dispatch mergeDispatched_empty
      split: prod.splits outcome.splits)

lemma dispatchFlags_flags:
  "dispatchFlags E fs as dir c s = (Ok d, s') \<Longrightarrow> map fst d = fs"
  by (induction fs arbitrary: d s) (auto split: prod.splits outcome.splits)

subsection \<open>Rules of an unrecognised type\<close>

text \<open>
  Claim C9. For every flag and every rule whose canonical type is none of the nine
  recognised types, \<^verbatim>\<open>generateAlias\<close> returns an empty alias list and no error, and calls
  nothing outside: the rule is skipped silently.
\<close>

theorem generateAlias_unrecognized_type:
  "Canonical E (Type a) = options_Unrecognized other \<Longrightarrow>
   generateAlias E a flag dir allFileContents s = (Ok [], s)"
  by (simp add: generateAlias_def)

theorem generateAlias_unrecognized_type_witness:
  "Canonical exampleEnv (Type (kebabRule\<lparr>Type := ''kebab''\<rparr>)) = options_Unrecognized ''kebab'' \<and>
   generateAlias exampleEnv (kebabRule\<lparr>Type := ''kebab''\<rparr>) ''my_flag'' ''/repo'' Map.empty
     exampleState = (Ok [], exampleState)"
proof -
  have t: "Canonical exampleEnv (Type (kebabRule\<lparr>Type := ''kebab''\<rparr>)) =
           options_Unrecognized ''kebab''"
    by (simp add: example_defs)
  show ?thesis
    using t generateAlias_unrecognized_type [OF t] by simp
qed

subsection \<open>One entry for each flag\<close>

lemma dom_aliasesFor: "dom (aliasesFor d) = fst ` set d"
  by (auto simp: aliasesFor_def dom_def)

lemma GenerateAliases_Ok:
  assumes "GenerateAliases E flags aliases dir s = (Ok m, s')"
  obtains d where "m = aliasesFor d" and "map fst d = flags"
proof -
  from assms obtain c s1 d where "dispatchFlags E flags aliases dir c s1 = (Ok d, s')"
    and m: "m = aliasesFor d"
    by (auto simp: GenerateAliases_dispatch split: prod.splits outcome.splits)
  then have "map fst d = flags"
    by (auto dest: dispatchFlags_flags)
  with m show thesis by (rule that)
qed

text \<open>
  Claim C2. For every call of \<^verbatim>\<open>GenerateAliases\<close> that returns a mapping, the mapping has
  exactly one entry for each requested flag (its keys are the requested flags, and an entry
  may be the empty list), and no flag's alias list holds a string twice.
\<close>

theorem GenerateAliases_one_entry_per_flag:
  assumes "GenerateAliases E flags aliases dir s = (Ok m, s')"
  shows "dom m = set flags \<and> (\<forall>flag\<in>set flags. \<exists>xs. m flag = Some xs \<and> distinct xs)"
proof -
  from assms obtain d where m: "m = aliasesFor d" and d: "map fst d = flags"
    by (rule GenerateAliases_Ok)
  from d have f: "fst ` set d = set flags"
    by (metis set_map)
  have "dom m = set flags"
    using m f by (simp add: dom_aliasesFor)
  moreover have "\<exists>xs. m flag = Some xs \<and> distinct xs" if "flag \<in> set flags" for flag
    using that m f by (simp add: aliasesFor_def distinct_Dedupe)
  ultimately show ?thesis by blast
qed

theorem GenerateAliases_one_entry_per_flag_witness:
  "(\<exists>m s'. GenerateAliases exampleEnv [''a_b'', ''c''] [kebabRule, kebabRule] ''/repo'' exampleState = (Ok m, s')
     \<and> dom m = {''a_b'', ''c''} \<and> m ''a_b'' = Some [''a-b''] \<and> m ''c'' = Some [''c''])"
proof -
  obtain m s' where g: "GenerateAliases exampleEnv [''a_b'', ''c''] [kebabRule, kebabRule] ''/repo'' exampleState = (Ok m, s')"
    and a: "m ''a_b'' = Some [''a-b'']" and c: "m ''c'' = Some [''c'']"
    by (simp add: GenerateAliases_dispatch example_defs model_defs aliasesFor_def)
  from GenerateAliases_one_entry_per_flag [OF g] have "dom m = {''a_b'', ''c''}" by simp
  with g a c show ?thesis by blast
qed

subsection \<open>The first failure ends the call\<close>

lemma applyRules_append:
  "applyRules E (as1 @ as2) f dir c ret s =
     (case applyRules E as1 f dir c ret s of
        (Ok ret', s') \<Rightarrow> applyRules E as2 f dir c ret' s'
      | (Err e, s') \<Rightarrow> (Err e, s')
      | (Panic p, s') \<Rightarrow> (Panic p, s'))"
  by (induction as1 arbitrary: ret s) (auto split: prod.splits outcome.splits)

lemma applyFlags_append:
  "applyFlags E (fs1 @ fs2) as dir c ret s =
     (case applyFlags E fs1 as dir c ret s of
        (Ok ret', s') \<Rightarrow> applyFlags E fs2 as dir c ret' s'
      | (Err e, s') \<Rightarrow> (Err e, s')
      | (Panic p, s') \<Rightarrow> (Panic p, s'))"
  by (induction fs1 arbitrary: ret s) (auto split: prod.splits outcome.splits)

lemma GenerateAliases_aborts_Err:
  assumes "processFileContent E (as1 @ a # as2) dir s = (Ok c, s1)"
    and "applyFlags E fs1 (as1 @ a # as2) dir c Map.empty s1 = (Ok ret1, s2)"
    and "applyRules E as1 f dir c ret1 s2 = (Ok ret2, s3)"
    and "generateAlias E a f dir c s3 = (Err e, s4)"
  shows "GenerateAliases E (fs1 @ f # fs2) (as1 @ a # as2) dir s = (Err e, s4)"
  using assms by (simp add: GenerateAliases_def applyFlags_append applyRules_append)

lemma GenerateAliases_aborts_Panic:
  assumes "processFileContent E (as1 @ a # as2) dir s = (Ok c, s1)"
    and "applyFlags E fs1 (as1 @ a # as2) dir c Map.empty s1 = (Ok ret1, s2)"
    and "applyRules E as1 f dir c ret1 s2 = (Ok ret2, s3)"
    and "generateAlias E a f dir c s3 = (Panic p, s4)"
  shows "GenerateAliases E (fs1 @ f # fs2) (as1 @ a # as2) dir s = (Panic p, s4)"
  using assms by (simp add: GenerateAliases_def applyFlags_append applyRules_append)

text \<open>
  Claim C3. \<^verbatim>\<open>GenerateAliases\<close> is fail-fast. When the cache build returns an error, the
  call returns that error. When the dispatch of a rule for a flag returns an error, after the
  flags before it and the rules before it succeeded, the call returns that error, in the
  state the failed dispatch left: nothing is dispatched after it. In both cases the result
  is the error alone, without a mapping.
\<close>

theorem GenerateAliases_fail_fast:
  "(processFileContent E aliases dir s = (Err e, sa) \<longrightarrow>
      GenerateAliases E flags aliases dir s = (Err e, sa)) \<and>
   (processFileContent E (rulesBefore @ a # rulesAfter) dir s = (Ok c, sa) \<and>
    applyFlags E flagsBefore (rulesBefore @ a # rulesAfter) dir c Map.empty sa =
      (Ok reta, sb) \<and>
    applyRules E rulesBefore f dir c reta sb = (Ok retb, sc) \<and>
    generateAlias E a f dir c sc = (Err e, sd) \<longrightarrow>
      GenerateAliases E (flagsBefore @ f # flagsAfter) (rulesBefore @ a # rulesAfter) dir s =
        (Err e, sd))"
  by (simp add: GenerateAliases_aborts_Err) (simp add: GenerateAliases_def)

theorem GenerateAliases_fail_fast_witness:
  "GenerateAliases exampleEnv [''f''] [filePatternRule\<lparr>Paths := [''['']\<rparr>] ''/repo'' exampleState =
     (Err (CacheGlobError ''0'' ''/repo'' ''[''), exampleState\<lparr>trace := [EvGlob ''/repo'' ''['']\<rparr>) \<and>
   GenerateAliases exampleEnv [''f'', ''g'']
       [kebabRule, commandRule (Some ''false''), kebabRule] ''/repo'' exampleState =
     (Err (CommandExecutionError ''exit status 1''),
      exampleState\<lparr>trace := [EvRun \<lparr>Path = ''false'', Args = [], Stdin = ''f'', Dir = ''/repo'',
                                     Deadline = None\<rparr>]\<rparr>)"
proof -
  have build: "processFileContent exampleEnv [filePatternRule\<lparr>Paths := [''['']\<rparr>] ''/repo'' exampleState =
     (Err (CacheGlobError ''0'' ''/repo'' ''[''), exampleState\<lparr>trace := [EvGlob ''/repo'' ''['']\<rparr>)"
    by (simp add: example_defs model_defs Itoa.simps digit_def)
  have cache: "processFileContent exampleEnv
       ([kebabRule] @ commandRule (Some ''false'') # [kebabRule]) ''/repo'' exampleState =
     (Ok Map.empty, exampleState)"
    by (simp add: example_defs model_defs)
  have flags: "applyFlags exampleEnv [] ([kebabRule] @ commandRule (Some ''false'') # [kebabRule])
       ''/repo'' Map.empty Map.empty exampleState = (Ok Map.empty, exampleState)"
    by simp
  have rules: "applyRules exampleEnv [kebabRule] ''f'' ''/repo'' Map.empty Map.empty exampleState =
     (Ok [''f'' \<mapsto> [''f'']], exampleState)"
    by (simp add: example_defs model_defs)
  have dispatch: "generateAlias exampleEnv (commandRule (Some ''false'')) ''f'' ''/repo'' Map.empty
       exampleState =
     (Err (CommandExecutionError ''exit status 1''),
      exampleState\<lparr>trace := [EvRun \<lparr>Path = ''false'', Args = [], Stdin = ''f'', Dir = ''/repo'',
                                     Deadline = None\<rparr>]\<rparr>)"
    by (simp add: example_defs model_defs)
  note a = GenerateAliases_fail_fast [where flags = "[''f'']", THEN conjunct1, rule_format, OF build]
  note b = GenerateAliases_fail_fast [where flagsAfter = "[''g'']", THEN conjunct2, rule_format,
      OF conjI [OF cache conjI [OF flags conjI [OF rules dispatch]]]]
  from a b show ?thesis by simp
qed

subsection \<open>The patterns of a file-pattern rule\<close>

lemma appendGroups_concat:
  "appendGroups results ret = ret @ concat (map tl (filter (\<lambda>res. length res > 1) results))"
  by (induction results arbitrary: ret) auto

lemma matchPatterns_compiled:
  "\<forall>p\<in>set ps. Compiles E (ReplaceAll p FLAG_KEY flag) \<Longrightarrow>
   matchPatterns E ps flag fileContents ret =
     Ok (ret @ concat (map (\<lambda>p. concat (map tl (filter (\<lambda>res. length res > 1)
              (FindAllStringSubmatch E (ReplaceAll p FLAG_KEY flag) fileContents)))) ps))"
  by (induction ps arbitrary: ret) (auto simp: appendGroups_concat)

lemma matchPatterns_panics:
  "\<forall>q\<in>set ps1. Compiles E (ReplaceAll q FLAG_KEY flag) \<Longrightarrow>
   \<not> Compiles E (ReplaceAll p FLAG_KEY flag) \<Longrightarrow>
   matchPatterns E (ps1 @ p # ps2) flag fileContents ret =
     Panic (MustCompilePanic (ReplaceAll p FLAG_KEY flag))"
  by (induction ps1 arbitrary: ret) auto

text \<open>
  Claim C5. For every file-pattern rule and flag, only capture groups become aliases. When
  the globs of the rule expand and every template compiles after the substitution of the
  flag key, the result is, pattern after pattern and match after match, all the capture
  groups of every match that has at least one (the match without its first element, which
  is the whole match). When no match of any template has a capture group, the rule
  contributes no alias, whatever it matches.
\<close>

theorem file_pattern_collects_capture_groups:
  "(Canonical E (Type a) = options_FilePattern \<and>
    concatFiles E dir allFileContents (Paths a) [] s = (Ok fileContents, s') \<and>
    (\<forall>p\<in>set (Patterns a). Compiles E (ReplaceAll p FLAG_KEY flag)) \<longrightarrow>
      generateAlias E a flag dir allFileContents s =
        (Ok (concat (map (\<lambda>p. concat (map tl (filter (\<lambda>res. length res > 1)
               (FindAllStringSubmatch E (ReplaceAll p FLAG_KEY flag) fileContents))))
             (Patterns a))), s')) \<and>
   (Canonical E (Type a) = options_FilePattern \<and>
    concatFiles E dir allFileContents (Paths a) [] s = (Ok fileContents, s') \<and>
    (\<forall>p\<in>set (Patterns a). Compiles E (ReplaceAll p FLAG_KEY flag) \<and>
       (\<forall>res\<in>set (FindAllStringSubmatch E (ReplaceAll p FLAG_KEY flag) fileContents).
          length res \<le> 1)) \<longrightarrow>
      generateAlias E a flag dir allFileContents s = (Ok [], s'))"
proof (intro conjI impI)
  assume h: "Canonical E (Type a) = options_FilePattern \<and>
    concatFiles E dir allFileContents (Paths a) [] s = (Ok fileContents, s') \<and>
    (\<forall>p\<in>set (Patterns a). Compiles E (ReplaceAll p FLAG_KEY flag))"
  then show "generateAlias E a flag dir allFileContents s =
        (Ok (concat (map (\<lambda>p. concat (map tl (filter (\<lambda>res. length res > 1)
               (FindAllStringSubmatch E (ReplaceAll p FLAG_KEY flag) fileContents))))
             (Patterns a))), s')"
    by (simp add: generateAlias_def matchPatterns_compiled)
next
  assume h: "Canonical E (Type a) = options_FilePattern \<and>
    concatFiles E dir allFileContents (Paths a) [] s = (Ok fileContents, s') \<and>
    (\<forall>p\<in>set (Patterns a). Compiles E (ReplaceAll p FLAG_KEY flag) \<and>
       (\<forall>res\<in>set (FindAllStringSubmatch E (ReplaceAll p FLAG_KEY flag) fileContents).
          length res \<le> 1))"
  have "filter (\<lambda>res. length res > 1)
          (FindAllStringSubmatch E (ReplaceAll p FLAG_KEY flag) fileContents) = []"
    if "p \<in> set (Patterns a)" for p
  proof -
    from h that have "\<forall>res\<in>set (FindAllStringSubmatch E (ReplaceAll p FLAG_KEY flag) fileContents).
          length res \<le> 1"
      by blast
    then show ?thesis
      by (auto simp: filter_empty_conv)
  qed
  then have "concat (map (\<lambda>p. concat (map tl (filter (\<lambda>res. length res > 1)
               (FindAllStringSubmatch E (ReplaceAll p FLAG_KEY flag) fileContents))))
             (Patterns a)) = []"
    by simp
  with h show "generateAlias E a flag dir allFileContents s = (Ok [], s')"
    by (simp add: generateAlias_def matchPatterns_compiled)
qed

lemma subst_group: "ReplaceAll ''FLAG_KEY=(myFlag)'' FLAG_KEY ''my-flag'' = ''my-flag=(myFlag)''"
  by (simp add: FLAG_KEY_def ReplaceAll.simps)

lemma subst_plain: "ReplaceAll ''FLAG_KEY'' FLAG_KEY ''my-flag'' = ''my-flag''"
  by (simp add: FLAG_KEY_def ReplaceAll.simps)

theorem file_pattern_collects_capture_groups_witness:
  "generateAlias exampleEnv filePatternRule ''my-flag'' ''/repo'' exampleCache exampleState =
     (Ok [''myFlag''],
      exampleState\<lparr>trace := [EvGlob ''/repo'' ''a.txt'', EvGlob ''/repo'' ''*'']\<rparr>) \<and>
   FindAllStringSubmatch exampleEnv ''my-flag'' ''my-flmy-flag=myFlag;'' = [[''my-flag'']] \<and>
   generateAlias exampleEnv noGroupRule ''my-flag'' ''/repo'' exampleCache exampleState =
     (Ok [],
      exampleState\<lparr>trace := [EvGlob ''/repo'' ''a.txt'', EvGlob ''/repo'' ''*'']\<rparr>)"
proof -
  let ?s' = "exampleState\<lparr>trace := [EvGlob ''/repo'' ''a.txt'', EvGlob ''/repo'' ''*'']\<rparr>"
  have kind: "Canonical exampleEnv (Type filePatternRule) = options_FilePattern"
    by (simp add: example_defs)
  have buffer: "concatFiles exampleEnv ''/repo'' exampleCache (Paths filePatternRule) []
       exampleState = (Ok ''my-flmy-flag=myFlag;'', ?s')"
    by (simp add: example_defs run_defs)
  have patterns: "Patterns filePatternRule = [''FLAG_KEY=(myFlag)'']"
    by (simp add: example_defs)
  have compiled: "\<forall>p\<in>set (Patterns filePatternRule).
       Compiles exampleEnv (ReplaceAll p FLAG_KEY ''my-flag'')"
    unfolding patterns by (simp add: subst_group) (simp add: exampleEnv_def)
  have groups: "concat (map (\<lambda>p. concat (map tl (filter (\<lambda>res. length res > 1)
          (FindAllStringSubmatch exampleEnv (ReplaceAll p FLAG_KEY ''my-flag'')
             ''my-flmy-flag=myFlag;''))))
        (Patterns filePatternRule)) = [''myFlag'']"
    unfolding patterns by (simp add: subst_group) (simp add: exampleEnv_def exampleFind_def)
  have first: "generateAlias exampleEnv filePatternRule ''my-flag'' ''/repo'' exampleCache
       exampleState = (Ok [''myFlag''], ?s')"
    using file_pattern_collects_capture_groups [THEN conjunct1, rule_format,
        OF conjI [OF kind conjI [OF buffer compiled]]]
    by (simp only: groups)
  have found: "FindAllStringSubmatch exampleEnv ''my-flag'' ''my-flmy-flag=myFlag;'' =
       [[''my-flag'']]"
    by (simp add: exampleEnv_def exampleFind_def)
  have kind': "Canonical exampleEnv (Type noGroupRule) = options_FilePattern"
    by (simp add: example_defs noGroupRule_def)
  have buffer': "concatFiles exampleEnv ''/repo'' exampleCache (Paths noGroupRule) []
       exampleState = (Ok ''my-flmy-flag=myFlag;'', ?s')"
    by (simp add: example_defs run_defs noGroupRule_def)
  have patterns': "Patterns noGroupRule = [''FLAG_KEY'']"
    by (simp add: noGroupRule_def)
  have none: "\<forall>p\<in>set (Patterns noGroupRule).
       Compiles exampleEnv (ReplaceAll p FLAG_KEY ''my-flag'') \<and>
       (\<forall>res\<in>set (FindAllStringSubmatch exampleEnv (ReplaceAll p FLAG_KEY ''my-flag'')
                     ''my-flmy-flag=myFlag;''). length res \<le> 1)"
    unfolding patterns' by (simp add: subst_plain) (simp add: exampleEnv_def exampleFind_def)
  note second = file_pattern_collects_capture_groups [THEN conjunct2, rule_format,
        OF conjI [OF kind' conjI [OF buffer' none]]]
  from first found second show ?thesis by blast
qed

subsection \<open>The buffer of a file-pattern rule\<close>

lemma appendContents_concat:
  "appendContents c matches fc = fc @ concat (map (lookup c) matches)"
  by (induction matches arbitrary: fc) auto

lemma globToAbsolutePaths_world:
  "globToAbsolutePaths E dir p s = (r, s') \<Longrightarrow> world s' = world s"
  by (auto simp: globToAbsolutePaths_def record_event_def split: option.splits)

lemma concatFiles_concat:
  "\<forall>path\<in>set paths. Glob E (world s) dir path \<noteq> None \<Longrightarrow>
   fst (concatFiles E dir c paths fc s) =
     Ok (fc @ concat (map (lookup c) (concat (map (matchedPaths E (world s) dir) paths))))"
proof (induction paths arbitrary: fc s)
  case Nil
  then show ?case by simp
next
  case (Cons path paths)
  from Cons.prems obtain ms where g: "Glob E (world s) dir path = Some ms" by auto
  let ?s' = "record_event (EvGlob dir path) s"
  have w: "world ?s' = world s" by (simp add: record_event_def)
  have "fst (concatFiles E dir c paths (appendContents c (map (\<lambda>m. dir @ ''/'' @ m) ms) fc) ?s') =
        Ok (appendContents c (map (\<lambda>m. dir @ ''/'' @ m) ms) fc
            @ concat (map (lookup c) (concat (map (matchedPaths E (world s) dir) paths))))"
    using Cons.prems Cons.IH [of ?s'] by (simp add: w)
  moreover have "matchedPaths E (world s) dir path = map (\<lambda>m. dir @ ''/'' @ m) ms"
    using g by (simp add: matchedPaths_def)
  ultimately show ?case
    using g by (simp add: globToAbsolutePaths_def appendContents_concat)
qed

text \<open>
  Claim C6. For every file-pattern rule whose globs expand, the cached contents of the
  matched files are concatenated into one buffer, glob after glob and match after match,
  without deduplication (a path matched by two globs gives its content twice); a path that
  the cache does not hold, or holds with an empty content, adds nothing; and the templates
  are applied to the whole buffer, so that a match may span two files' contents.
\<close>

theorem file_pattern_concatenates_contents:
  "Canonical E (Type a) = options_FilePattern \<and>
   (\<forall>path\<in>set (Paths a). Glob E (world s) dir path \<noteq> None) \<longrightarrow>
     fst (generateAlias E a flag dir allFileContents s) =
       matchPatterns E (Patterns a) flag
         (concat (map (lookup allFileContents)
            (concat (map (matchedPaths E (world s) dir) (Paths a))))) []"
proof
  assume h: "Canonical E (Type a) = options_FilePattern \<and>
   (\<forall>path\<in>set (Paths a). Glob E (world s) dir path \<noteq> None)"
  then have "fst (concatFiles E dir allFileContents (Paths a) [] s) =
     Ok (concat (map (lookup allFileContents)
            (concat (map (matchedPaths E (world s) dir) (Paths a)))))"
    using concatFiles_concat [of "Paths a" E s dir allFileContents "[]"] by simp
  with h show "fst (generateAlias E a flag dir allFileContents s) =
       matchPatterns E (Patterns a) flag
         (concat (map (lookup allFileContents)
            (concat (map (matchedPaths E (world s) dir) (Paths a))))) []"
    by (cases "concatFiles E dir allFileContents (Paths a) [] s")
       (simp add: generateAlias_def)
qed

theorem file_pattern_concatenates_contents_witness:
  "concat (map (lookup exampleCache)
      (concat (map (matchedPaths exampleEnv (world exampleState) ''/repo'')
         (Paths filePatternRule)))) = ''my-fl'' @ ''my-fl'' @ ''ag=myFlag;'' \<and>
   fst (generateAlias exampleEnv filePatternRule ''my-flag'' ''/repo'' exampleCache exampleState) =
     Ok [''myFlag'']"
proof -
  have kind: "Canonical exampleEnv (Type filePatternRule) = options_FilePattern"
    by (simp add: example_defs)
  have globs: "\<forall>path\<in>set (Paths filePatternRule).
       Glob exampleEnv (world exampleState) ''/repo'' path \<noteq> None"
    by (simp add: example_defs)
  have buffer: "concat (map (lookup exampleCache)
      (concat (map (matchedPaths exampleEnv (world exampleState) ''/repo'')
         (Paths filePatternRule)))) = ''my-fl'' @ ''my-fl'' @ ''ag=myFlag;''"
    by (simp add: example_defs model_defs matchedPaths_def)
  have matches: "matchPatterns exampleEnv (Patterns filePatternRule) ''my-flag''
       (''my-fl'' @ ''my-fl'' @ ''ag=myFlag;'') [] = Ok [''myFlag'']"
    by (simp add: example_defs model_defs ReplaceAll.simps)
  have "fst (generateAlias exampleEnv filePatternRule ''my-flag'' ''/repo'' exampleCache
          exampleState) = Ok [''myFlag'']"
    using file_pattern_concatenates_contents [rule_format, OF conjI [OF kind globs]]
    by (simp only: buffer matches)
  with buffer show ?thesis by (rule conjI)
qed

subsection \<open>The cache build reads a file once\<close>

lemma filesRead_append: "filesRead (xs @ ys) = filesRead xs @ filesRead ys"
  by (induction xs rule: filesRead.induct) auto

lemma filesChecked_append: "filesChecked (xs @ ys) = filesChecked xs @ filesChecked ys"
  by (induction xs rule: filesChecked.induct) auto

lemma cacheStep_quiet:
  "filesRead evs = [] \<Longrightarrow> filesChecked evs = [] \<Longrightarrow> (\<forall>c'. r = Ok c' \<longrightarrow> c' = c) \<Longrightarrow>
   cacheStep E w c evs r"
  by (simp add: cacheStep_def)

lemma cacheStep_trans:
  assumes a: "cacheStep E w c evs1 (Ok c1)" and b: "cacheStep E w c1 evs2 r"
  shows "cacheStep E w c (evs1 @ evs2) r"
proof -
  from a have a1: "distinct (filesRead evs1)" and a2: "distinct (filesChecked evs1)"
    and a3: "set (filesRead evs1) \<inter> dom c = {}" and a4: "set (filesChecked evs1) \<inter> dom c = {}"
    and a5: "dom c1 = dom c \<union> set (filesRead evs1)"
    and a6: "set (filesChecked evs1) \<subseteq> set (filesRead evs1)"
    and a7: "\<forall>path\<in>dom c. c1 path = c path"
    and a8: "\<forall>path\<in>set (filesRead evs1). FileExists E w path \<and>
            (\<exists>data. ReadFile E w path = Inr data \<and> c1 path = Some data)"
    by (simp_all add: cacheStep_def)
  from b have b1: "distinct (filesRead evs2)" and b2: "distinct (filesChecked evs2)"
    and b3: "set (filesRead evs2) \<inter> dom c1 = {}" and b4: "set (filesChecked evs2) \<inter> dom c1 = {}"
    by (simp_all add: cacheStep_def)
  have 1: "distinct (filesRead (evs1 @ evs2))"
    using a1 b1 b3 a5 by (auto simp: filesRead_append)
  have 2: "distinct (filesChecked (evs1 @ evs2))"
    using a2 b2 b4 a5 a6 by (auto simp: filesChecked_append)
  have 3: "set (filesRead (evs1 @ evs2)) \<inter> dom c = {}"
    using a3 b3 a5 by (auto simp: filesRead_append)
  have 4: "set (filesChecked (evs1 @ evs2)) \<inter> dom c = {}"
    using a4 b4 a5 by (auto simp: filesChecked_append)
  have 5: "dom c' = dom c \<union> set (filesRead (evs1 @ evs2)) \<and>
        set (filesChecked (evs1 @ evs2)) \<subseteq> set (filesRead (evs1 @ evs2)) \<and>
        (\<forall>path\<in>dom c. c' path = c path) \<and>
        (\<forall>path\<in>set (filesRead (evs1 @ evs2)). FileExists E w path \<and>
            (\<exists>data. ReadFile E w path = Inr data \<and> c' path = Some data))"
    if r: "r = Ok c'" for c'
  proof -
    from b r have b5: "dom c' = dom c1 \<union> set (filesRead evs2)"
      and b6: "set (filesChecked evs2) \<subseteq> set (filesRead evs2)"
      and b7: "\<forall>path\<in>dom c1. c' path = c1 path"
      and b8: "\<forall>path\<in>set (filesRead evs2). FileExists E w path \<and>
            (\<exists>data. ReadFile E w path = Inr data \<and> c' path = Some data)"
      by (simp_all add: cacheStep_def)
    have p1: "dom c' = dom c \<union> set (filesRead (evs1 @ evs2))"
      using a5 b5 by (auto simp: filesRead_append)
    have p2: "set (filesChecked (evs1 @ evs2)) \<subseteq> set (filesRead (evs1 @ evs2))"
      using a6 b6 by (auto simp: filesRead_append filesChecked_append)
    have p3: "\<forall>path\<in>dom c. c' path = c path"
      using a7 b7 a5 by auto
    have p4: "FileExists E w path \<and> (\<exists>data. ReadFile E w path = Inr data \<and> c' path = Some data)"
      if "path \<in> set (filesRead (evs1 @ evs2))" for path
    proof (cases "path \<in> set (filesRead evs1)")
      case True
      then have "path \<in> dom c1" using a5 by simp
      then have "c' path = c1 path" using b7 by simp
      then show ?thesis using a8 True by simp
    next
      case False
      with that have "path \<in> set (filesRead evs2)" by (simp add: filesRead_append)
      then show ?thesis using b8 by simp
    qed
    from p1 p2 p3 p4 show ?thesis by blast
  qed
  show ?thesis
    unfolding cacheStep_def using 1 2 3 4 5 by blast
qed

lemma collectPaths_quiet:
  "collectPaths E aliasId dir globs paths s = (r, s') \<Longrightarrow>
   world s' = world s \<and>
   (\<exists>evs. trace s' = trace s @ evs \<and> filesRead evs = [] \<and> filesChecked evs = [])"
proof (induction globs arbitrary: paths s)
  case Nil
  then show ?case by simp
next
  case (Cons glob globs)
  let ?s1 = "record_event (EvGlob dir glob) s"
  show ?case
  proof (cases "Glob E (world s) dir glob")
    case None
    with Cons.prems have "s' = ?s1"
      by (simp add: globToAbsolutePaths_def)
    then show ?thesis by (simp add: record_event_def)
  next
    case (Some ms)
    with Cons.prems
    have "collectPaths E aliasId dir globs (paths @ map (\<lambda>m. dir @ ''/'' @ m) ms) ?s1 = (r, s')"
      by (simp add: globToAbsolutePaths_def)
    from Cons.IH [OF this] obtain evs where "world s' = world ?s1"
      and "trace s' = trace ?s1 @ evs" and "filesRead evs = []" and "filesChecked evs = []"
      by blast
    then have "world s' = world s \<and> trace s' = trace s @ (EvGlob dir glob # evs) \<and>
               filesRead (EvGlob dir glob # evs) = [] \<and> filesChecked (EvGlob dir glob # evs) = []"
      by (simp add: record_event_def)
    then show ?thesis by blast
  qed
qed

lemma readPaths_step:
  "readPaths E aliasId paths c s = (r, s') \<Longrightarrow>
   world s' = world s \<and> (\<exists>evs. trace s' = trace s @ evs \<and> cacheStep E (world s) c evs r)"
proof (induction paths arbitrary: c s)
  case Nil
  then have "s' = s" "r = Ok c" by auto
  then have "trace s' = trace s @ [] \<and> cacheStep E (world s) c [] r"
    by (simp add: cacheStep_quiet)
  then show ?case using \<open>s' = s\<close> by blast
next
  case (Cons path paths)
  let ?s1 = "record_event (EvFileExists path) s"
  let ?s2 = "record_event (EvReadFile path) ?s1"
  show ?case
  proof (cases "c path \<noteq> None")
    case True
    with Cons.prems have "readPaths E aliasId paths c s = (r, s')" by simp
    from Cons.IH [OF this] show ?thesis .
  next
    case absent: False
    then have nd: "path \<notin> dom c" by auto
    show ?thesis
    proof (cases "FileExists E (world s) path")
      case False
      with absent Cons.prems have rs: "r = Err (MissingFileError aliasId path)" "s' = ?s1"
        by auto
      have "cacheStep E (world s) c [EvFileExists path] r"
        using rs nd by (simp add: cacheStep_def)
      moreover have "trace s' = trace s @ [EvFileExists path]" "world s' = world s"
        using rs by (simp_all add: record_event_def)
      ultimately show ?thesis by blast
    next
      case ex: True
      show ?thesis
      proof (cases "ReadFile E (world s) path")
        case (Inl cause)
        with absent ex Cons.prems have rs: "r = Err (FileReadError aliasId path cause)" "s' = ?s2"
          by auto
        have "cacheStep E (world s) c [EvFileExists path, EvReadFile path] r"
          using rs nd by (simp add: cacheStep_def)
        moreover have "trace s' = trace s @ [EvFileExists path, EvReadFile path]"
          "world s' = world s"
          using rs by (simp_all add: record_event_def)
        ultimately show ?thesis by blast
      next
        case (Inr data)
        with absent ex Cons.prems
        have "readPaths E aliasId paths (c(path \<mapsto> data)) ?s2 = (r, s')"
          by auto
        from Cons.IH [OF this] obtain evs where w: "world s' = world ?s2"
          and t: "trace s' = trace ?s2 @ evs"
          and st: "cacheStep E (world ?s2) (c(path \<mapsto> data)) evs r"
          by blast
        have w2: "world ?s2 = world s" by (simp add: record_event_def)
        have first: "cacheStep E (world s) c [EvFileExists path, EvReadFile path]
                       (Ok (c(path \<mapsto> data)))"
          using nd ex Inr by (auto simp: cacheStep_def)
        have "cacheStep E (world s) c ([EvFileExists path, EvReadFile path] @ evs) r"
          using first st unfolding w2 by (rule cacheStep_trans)
        moreover have "trace s' = trace s @ ([EvFileExists path, EvReadFile path] @ evs)"
          using t by (simp add: record_event_def)
        ultimately show ?thesis using w w2 by metis
      qed
    qed
  qed
qed

lemma cacheStep_quiet_prefix:
  assumes "filesRead evs1 = []" and "filesChecked evs1 = []" and "cacheStep E w c evs2 r"
  shows "cacheStep E w c (evs1 @ evs2) r"
  using assms by (simp add: cacheStep_def filesRead_append filesChecked_append)

lemma cacheRules_step:
  "cacheRules E dir idx aliases c s = (r, s') \<Longrightarrow>
   world s' = world s \<and> (\<exists>evs. trace s' = trace s @ evs \<and> cacheStep E (world s) c evs r)"
proof (induction aliases arbitrary: idx c s)
  case Nil
  then have "s' = s" "r = Ok c" by auto
  then have "trace s' = trace s @ [] \<and> cacheStep E (world s) c [] r"
    by (simp add: cacheStep_quiet)
  then show ?case using \<open>s' = s\<close> by blast
next
  case (Cons a aliases)
  show ?case
  proof (cases "Canonical E (Type a) \<noteq> options_FilePattern")
    case True
    with Cons.prems have "cacheRules E dir (Suc idx) aliases c s = (r, s')" by simp
    from Cons.IH [OF this] show ?thesis .
  next
    case fp: False
    let ?id = "if Name a \<noteq> [] then Name a else Itoa idx"
    obtain r1 s1 where cp: "collectPaths E ?id dir (Paths a) [] s = (r1, s1)"
      by (cases "collectPaths E ?id dir (Paths a) [] s") auto
    from collectPaths_quiet [OF cp] obtain evs1 where w1: "world s1 = world s"
      and t1: "trace s1 = trace s @ evs1" and q1: "filesRead evs1 = []" "filesChecked evs1 = []"
      by blast
    show ?thesis
    proof (cases r1)
      case (Ok paths)
      obtain r2 s2 where rp: "readPaths E ?id (Dedupe paths) c s1 = (r2, s2)"
        by (cases "readPaths E ?id (Dedupe paths) c s1") auto
      from readPaths_step [OF rp] obtain evs2 where w2: "world s2 = world s1"
        and t2: "trace s2 = trace s1 @ evs2" and st2: "cacheStep E (world s1) c evs2 r2"
        by blast
      show ?thesis
      proof (cases r2)
        case ok2: (Ok c2)
        with fp cp Ok rp Cons.prems have "cacheRules E dir (Suc idx) aliases c2 s2 = (r, s')"
          by simp
        from Cons.IH [OF this] obtain evs3 where w3: "world s' = world s2"
          and t3: "trace s' = trace s2 @ evs3" and st3: "cacheStep E (world s2) c2 evs3 r"
          by blast
        have "cacheStep E (world s) c (evs2 @ evs3) r"
          using st2 st3 unfolding ok2 w2 w1 by (rule cacheStep_trans)
        then have "cacheStep E (world s) c (evs1 @ evs2 @ evs3) r"
          by (rule cacheStep_quiet_prefix [OF q1])
        moreover have "trace s' = trace s @ (evs1 @ evs2 @ evs3)"
          using t1 t2 t3 by simp
        moreover have "world s' = world s"
          using w1 w2 w3 by simp
        ultimately show ?thesis by blast
      next
        case (Err e)
        with fp cp Ok rp Cons.prems have rs: "r = r2" "s' = s2" by auto
        have "cacheStep E (world s) c (evs1 @ evs2) r"
          using st2 unfolding rs w1 by (rule cacheStep_quiet_prefix [OF q1])
        moreover have "trace s' = trace s @ (evs1 @ evs2)" "world s' = world s"
          using rs t1 t2 w1 w2 by simp_all
        ultimately show ?thesis by blast
      next
        case (Panic p)
        with fp cp Ok rp Cons.prems have rs: "r = r2" "s' = s2" by auto
        have "cacheStep E (world s) c (evs1 @ evs2) r"
          using st2 unfolding rs w1 by (rule cacheStep_quiet_prefix [OF q1])
        moreover have "trace s' = trace s @ (evs1 @ evs2)" "world s' = world s"
          using rs t1 t2 w1 w2 by simp_all
        ultimately show ?thesis by blast
      qed
    next
      case (Err e)
      with fp cp Cons.prems have rs: "r = Err e" "s' = s1" by auto
      have "cacheStep E (world s) c evs1 r"
        using q1 rs by (simp add: cacheStep_quiet)
      then show ?thesis using rs t1 w1 by blast
    next
      case (Panic p)
      with fp cp Cons.prems have rs: "r = Panic p" "s' = s1" by auto
      have "cacheStep E (world s) c evs1 r"
        using q1 rs by (simp add: cacheStep_quiet)
      then show ?thesis using rs t1 w1 by blast
    qed
  qed
qed

text \<open>
  Claim C7. During the construction of the cache, whatever its result, no path is read
  twice and none is checked for existence twice, over all the file-pattern rules: a path
  already in the cache is skipped without a check and without a read. The world is left as
  it was. A cache that is returned holds exactly the paths that were read, each with the
  content of its one read.
\<close>

theorem processFileContent_reads_once:
  assumes "processFileContent E aliases dir s = (r, s')"
  shows "world s' = world s \<and>
         (\<exists>evs. trace s' = trace s @ evs \<and>
            distinct (filesRead evs) \<and> distinct (filesChecked evs) \<and>
            (\<forall>c. r = Ok c \<longrightarrow>
               dom c = set (filesRead evs) \<and>
               (\<forall>path\<in>set (filesRead evs).
                  \<exists>data. ReadFile E (world s) path = Inr data \<and> c path = Some data)))"
proof -
  from assms have "cacheRules E dir 0 aliases Map.empty s = (r, s')"
    by (simp add: processFileContent_def)
  from cacheRules_step [OF this] obtain evs where w: "world s' = world s"
    and t: "trace s' = trace s @ evs" and st: "cacheStep E (world s) Map.empty evs r"
    by blast
  from st have d: "distinct (filesRead evs)" "distinct (filesChecked evs)"
    by (simp_all add: cacheStep_def)
  have ok: "dom c = set (filesRead evs) \<and>
               (\<forall>path\<in>set (filesRead evs).
                  \<exists>data. ReadFile E (world s) path = Inr data \<and> c path = Some data)"
    if "r = Ok c" for c
    using st that by (simp add: cacheStep_def)
  from w t d ok show ?thesis by blast
qed

theorem processFileContent_reads_once_witness:
  "\<exists>c s'. processFileContent exampleEnv [filePatternRule, kebabRule, filePatternRule] ''/repo''
             exampleState = (Ok c, s') \<and>
          dom c = {''/repo/a.txt'', ''/repo/b.txt''} \<and>
          filesRead (trace s') = [''/repo/a.txt'', ''/repo/b.txt''] \<and>
          filesChecked (trace s') = [''/repo/a.txt'', ''/repo/b.txt'']"
proof -
  let ?s' = "exampleState\<lparr>trace :=
       [EvGlob ''/repo'' ''a.txt'', EvGlob ''/repo'' ''*'',
        EvFileExists ''/repo/a.txt'', EvReadFile ''/repo/a.txt'',
        EvFileExists ''/repo/b.txt'', EvReadFile ''/repo/b.txt'',
        EvGlob ''/repo'' ''a.txt'', EvGlob ''/repo'' ''*'']\<rparr>"
  have run: "processFileContent exampleEnv [filePatternRule, kebabRule, filePatternRule] ''/repo''
               exampleState = (Ok exampleCache, ?s')"
    by (simp add: example_defs model_defs)
  from processFileContent_reads_once [OF run]
  obtain evs where t: "trace ?s' = trace exampleState @ evs"
    and d: "\<forall>c. Ok exampleCache = Ok c \<longrightarrow> dom c = set (filesRead evs) \<and>
              (\<forall>path\<in>set (filesRead evs).
                  \<exists>data. ReadFile exampleEnv (world exampleState) path = Inr data \<and>
                         c path = Some data)"
    by blast
  from t have evs: "evs = trace ?s'" by (simp add: exampleState_def)
  have r: "filesRead (trace ?s') = [''/repo/a.txt'', ''/repo/b.txt'']"
    and k: "filesChecked (trace ?s') = [''/repo/a.txt'', ''/repo/b.txt'']"
    by simp_all
  from d evs r have "dom exampleCache = {''/repo/a.txt'', ''/repo/b.txt''}"
    by simp
  with run r k show ?thesis by blast
qed

subsection \<open>The driver builds the cache first\<close>

lemma collectPaths_paths:
  "collectPaths E aliasId dir globs acc s = (Ok paths, s') \<Longrightarrow>
   paths = acc @ concat (map (matchedPaths E (world s) dir) globs)"
proof (induction globs arbitrary: acc s)
  case Nil
  then show ?case by simp
next
  case (Cons glob globs)
  let ?s1 = "record_event (EvGlob dir glob) s"
  show ?case
  proof (cases "Glob E (world s) dir glob")
    case None
    with Cons.prems show ?thesis
      by (simp add: globToAbsolutePaths_def)
  next
    case (Some ms)
    with Cons.prems
    have "collectPaths E aliasId dir globs (acc @ map (\<lambda>m. dir @ ''/'' @ m) ms) ?s1 = (Ok paths, s')"
      by (simp add: globToAbsolutePaths_def)
    from Cons.IH [OF this]
    have "paths = (acc @ map (\<lambda>m. dir @ ''/'' @ m) ms)
                  @ concat (map (matchedPaths E (world ?s1) dir) globs)" .
    moreover have "world ?s1 = world s" by (simp add: record_event_def)
    moreover have "matchedPaths E (world s) dir glob = map (\<lambda>m. dir @ ''/'' @ m) ms"
      using Some by (simp add: matchedPaths_def)
    ultimately show ?thesis by simp
  qed
qed

lemma readPaths_dom:
  "readPaths E aliasId paths c s = (Ok c', s') \<Longrightarrow> dom c' = dom c \<union> set paths"
proof (induction paths arbitrary: c s)
  case Nil
  then show ?case by simp
next
  case (Cons path paths)
  show ?case
  proof (cases "c path \<noteq> None")
    case True
    with Cons.prems have "readPaths E aliasId paths c s = (Ok c', s')" by simp
    from Cons.IH [OF this] True show ?thesis by auto
  next
    case False
    with Cons.prems obtain data s2 where
      "readPaths E aliasId paths (c(path \<mapsto> data)) s2 = (Ok c', s')"
      by (auto split: if_splits sum.splits)
    from Cons.IH [OF this] show ?thesis by auto
  qed
qed

lemma cacheRules_dom:
  "cacheRules E dir idx aliases c s = (Ok c', s') \<Longrightarrow>
   dom c' = dom c \<union> set (cachedPaths E (world s) dir aliases)"
proof (induction aliases arbitrary: idx c s)
  case Nil
  then show ?case by (simp add: cachedPaths_def)
next
  case (Cons a aliases)
  show ?case
  proof (cases "Canonical E (Type a) \<noteq> options_FilePattern")
    case True
    with Cons.prems have "cacheRules E dir (Suc idx) aliases c s = (Ok c', s')" by simp
    from Cons.IH [OF this] True show ?thesis by (simp add: cachedPaths_def)
  next
    case fp: False
    let ?id = "if Name a \<noteq> [] then Name a else Itoa idx"
    from fp Cons.prems obtain paths s1 c1 s2 where
      cp: "collectPaths E ?id dir (Paths a) [] s = (Ok paths, s1)"
      and rp: "readPaths E ?id (Dedupe paths) c s1 = (Ok c1, s2)"
      and rest: "cacheRules E dir (Suc idx) aliases c1 s2 = (Ok c', s')"
      by (auto split: prod.splits outcome.splits)
    from collectPaths_paths [OF cp]
    have p: "paths = concat (map (matchedPaths E (world s) dir) (Paths a))" by simp
    from collectPaths_quiet [OF cp] have w1: "world s1 = world s" by simp
    from readPaths_step [OF rp] have w2: "world s2 = world s1" by simp
    from readPaths_dom [OF rp] have d1: "dom c1 = dom c \<union> set paths"
      by (simp add: set_Dedupe)
    from Cons.IH [OF rest]
    have "dom c' = dom c1 \<union> set (cachedPaths E (world s) dir aliases)"
      by (simp add: w1 w2)
    with d1 p fp show ?thesis
      by (auto simp: cachedPaths_def)
  qed
qed

lemma processFileContent_cache:
  assumes "processFileContent E aliases dir s = (Ok c, sa)"
  shows "world sa = world s \<and> dom c = set (cachedPaths E (world s) dir aliases) \<and>
         (\<forall>path\<in>dom c. \<exists>data. ReadFile E (world s) path = Inr data \<and> c path = Some data)"
proof -
  from assms have run: "cacheRules E dir 0 aliases Map.empty s = (Ok c, sa)"
    by (simp add: processFileContent_def)
  from cacheRules_dom [OF run] have d: "dom c = set (cachedPaths E (world s) dir aliases)"
    by simp
  from cacheRules_step [OF run] obtain evs where w: "world sa = world s"
    and st: "cacheStep E (world s) Map.empty evs (Ok c)"
    by blast
  from st have "dom c = set (filesRead evs)"
    and "\<forall>path\<in>set (filesRead evs).
            \<exists>data. ReadFile E (world s) path = Inr data \<and> c path = Some data"
    by (simp_all add: cacheStep_def)
  then have "\<forall>path\<in>dom c. \<exists>data. ReadFile E (world s) path = Inr data \<and> c path = Some data"
    by simp
  with w d show ?thesis by blast
qed

lemma concatFiles_quiet:
  "concatFiles E dir c paths fc s = (r, s') \<Longrightarrow>
   \<exists>evs. trace s' = trace s @ evs \<and> filesRead evs = [] \<and> filesChecked evs = []"
proof (induction paths arbitrary: fc s)
  case Nil
  then show ?case by simp
next
  case (Cons path paths)
  let ?s1 = "record_event (EvGlob dir path) s"
  show ?case
  proof (cases "Glob E (world s) dir path")
    case None
    with Cons.prems have "s' = ?s1"
      by (simp add: globToAbsolutePaths_def)
    then have "trace s' = trace s @ [EvGlob dir path] \<and> filesRead [EvGlob dir path] = [] \<and>
               filesChecked [EvGlob dir path] = []"
      by (simp add: record_event_def)
    then show ?thesis by blast
  next
    case (Some ms)
    with Cons.prems obtain fc' where "concatFiles E dir c paths fc' ?s1 = (r, s')"
      by (simp add: globToAbsolutePaths_def)
    from Cons.IH [OF this] obtain evs where "trace s' = trace ?s1 @ evs"
      and "filesRead evs = []" and "filesChecked evs = []"
      by blast
    then have "trace s' = trace s @ (EvGlob dir path # evs) \<and>
               filesRead (EvGlob dir path # evs) = [] \<and> filesChecked (EvGlob dir path # evs) = []"
      by (simp add: record_event_def)
    then show ?thesis by blast
  qed
qed

lemma generateAlias_quiet:
  assumes "generateAlias E a flag dir c s = (r, s')"
  shows "\<exists>evs. trace s' = trace s @ evs \<and> filesRead evs = [] \<and> filesChecked evs = []"
proof (cases "Canonical E (Type a)")
  case options_FilePattern
  obtain r1 s1 where cf: "concatFiles E dir c (Paths a) [] s = (r1, s1)"
    by (cases "concatFiles E dir c (Paths a) [] s") auto
  with assms options_FilePattern have "s' = s1"
    by (auto simp: generateAlias_def split: outcome.splits)
  with concatFiles_quiet [OF cf] show ?thesis by simp
next
  case options_Command
  show ?thesis
  proof (cases "Command a")
    case None
    with assms options_Command have "s' = s" by (simp add: generateAlias_def)
    then have "trace s' = trace s @ [] \<and> filesRead [] = [] \<and> filesChecked [] = []" by simp
    then show ?thesis by blast
  next
    case (Some command)
    show ?thesis
    proof (cases "Split command (CHR '' '')")
      case Nil
      with assms options_Command Some have "s' = s"
        by (simp add: generateAlias_def runCommand_def)
      then have "trace s' = trace s @ [] \<and> filesRead [] = [] \<and> filesChecked [] = []" by simp
      then show ?thesis by blast
    next
      case (Cons name args)
      let ?cmd = "\<lparr>Path = name, Args = args, Stdin = flag, Dir = dir,
                    Deadline = deadline (Timeout a)\<rparr>"
      from assms options_Command Some Cons
      have "trace s' = trace s @ [EvRun ?cmd]"
        by (auto simp: generateAlias_def runCommand_def record_event_def Let_def
            split: sum.splits)
      then have "trace s' = trace s @ [EvRun ?cmd] \<and> filesRead [EvRun ?cmd] = [] \<and>
                 filesChecked [EvRun ?cmd] = []"
        by simp
      then show ?thesis by blast
    qed
  qed
qed (use assms in \<open>auto simp: generateAlias_def\<close>)

lemma dispatchRules_quiet:
  "dispatchRules E as flag dir c s = (r, s') \<Longrightarrow>
   \<exists>evs. trace s' = trace s @ evs \<and> filesRead evs = [] \<and> filesChecked evs = []"
proof (induction as arbitrary: r s s')
  case Nil
  then show ?case by simp
next
  case (Cons a as)
  obtain r1 s1 where g: "generateAlias E a flag dir c s = (r1, s1)"
    by (cases "generateAlias E a flag dir c s") auto
  from generateAlias_quiet [OF g] obtain evs1 where t1: "trace s1 = trace s @ evs1"
    and q1: "filesRead evs1 = []" "filesChecked evs1 = []"
    by blast
  show ?case
  proof (cases r1)
    case (Ok out)
    obtain r2 s2 where d: "dispatchRules E as flag dir c s1 = (r2, s2)"
      by (cases "dispatchRules E as flag dir c s1") auto
    from Cons.IH [OF d] obtain evs2 where t2: "trace s2 = trace s1 @ evs2"
      and q2: "filesRead evs2 = []" "filesChecked evs2 = []"
      by blast
    from Cons.prems g Ok d have "s' = s2"
      by (auto split: outcome.splits)
    with t1 t2 q1 q2 have "trace s' = trace s @ (evs1 @ evs2) \<and>
        filesRead (evs1 @ evs2) = [] \<and> filesChecked (evs1 @ evs2) = []"
      by (simp add: filesRead_append filesChecked_append)
    then show ?thesis by blast
  next
    case (Err e)
    with Cons.prems g have "s' = s1" by simp
    with t1 q1 show ?thesis by blast
  next
    case (Panic p)
    with Cons.prems g have "s' = s1" by simp
    with t1 q1 show ?thesis by blast
  qed
qed

lemma dispatchFlags_quiet:
  "dispatchFlags E fs as dir c s = (r, s') \<Longrightarrow>
   \<exists>evs. trace s' = trace s @ evs \<and> filesRead evs = [] \<and> filesChecked evs = []"
proof (induction fs arbitrary: r s s')
  case Nil
  then show ?case by simp
next
  case (Cons f fs)
  obtain r1 s1 where g: "dispatchRules E as f dir c s = (r1, s1)"
    by (cases "dispatchRules E as f dir c s") auto
  from dispatchRules_quiet [OF g] obtain evs1 where t1: "trace s1 = trace s @ evs1"
    and q1: "filesRead evs1 = []" "filesChecked evs1 = []"
    by blast
  show ?case
  proof (cases r1)
    case (Ok outs)
    obtain r2 s2 where d: "dispatchFlags E fs as dir c s1 = (r2, s2)"
      by (cases "dispatchFlags E fs as dir c s1") auto
    from Cons.IH [OF d] obtain evs2 where t2: "trace s2 = trace s1 @ evs2"
      and q2: "filesRead evs2 = []" "filesChecked evs2 = []"
      by blast
    from Cons.prems g Ok d have "s' = s2"
      by (auto split: outcome.splits)
    with t1 t2 q1 q2 have "trace s' = trace s @ (evs1 @ evs2) \<and>
        filesRead (evs1 @ evs2) = [] \<and> filesChecked (evs1 @ evs2) = []"
      by (simp add: filesRead_append filesChecked_append)
    then show ?thesis by blast
  next
    case (Err e)
    with Cons.prems g have "s' = s1" by simp
    with t1 q1 show ?thesis by blast
  next
    case (Panic p)
    with Cons.prems g have "s' = s1" by simp
    with t1 q1 show ?thesis by blast
  qed
qed

text \<open>
  Claim C1. For every flag list, rule list and base directory, \<^verbatim>\<open>GenerateAliases\<close> first
  builds the file content cache, then dispatches every rule for every flag, in the order of
  the flags and in the configured order of the rules, and the entry of a flag is the stable
  deduplication (the first occurrence stays) of the concatenation of the outputs dispatched
  for that flag, in that order. A failure of the cache build or of a dispatch is the result
  of the call. When a flag occurs more than once in the list, the rules are dispatched
  again for it and its entry is the deduplication of all the outputs dispatched for it.
  The cache that the dispatches receive is built in the initial world, which the build
  leaves as it is: its keys are the paths that the globs of the file-pattern rules match
  there, each with the content read for it. Once the cache is built, no file is checked or
  read any more: the dispatches only add globs and process runs to the trace.
\<close>

theorem GenerateAliases_dedupes_dispatched:
  "GenerateAliases E flags aliases dir s =
     (case processFileContent E aliases dir s of
        (Ok allFileContents, s1) \<Rightarrow>
          (case dispatchFlags E flags aliases dir allFileContents s1 of
             (Ok dispatched, s2) \<Rightarrow> (Ok (aliasesFor dispatched), s2)
           | (Err e, s2) \<Rightarrow> (Err e, s2)
           | (Panic p, s2) \<Rightarrow> (Panic p, s2))
      | (Err e, s1) \<Rightarrow> (Err e, s1)
      | (Panic p, s1) \<Rightarrow> (Panic p, s1)) \<and>
   (processFileContent E aliases dir s = (Ok c, sa) \<longrightarrow>
      world sa = world s \<and>
      dom c = set (cachedPaths E (world s) dir aliases) \<and>
      (\<forall>path\<in>dom c. \<exists>data. ReadFile E (world s) path = Inr data \<and> c path = Some data)) \<and>
   (processFileContent E aliases dir s = (Ok c, sa) \<and>
    dispatchFlags E flags aliases dir c sa = (r, sb) \<longrightarrow>
      (\<exists>evs. trace sb = trace sa @ evs \<and> filesRead evs = [] \<and> filesChecked evs = []))"
proof (intro conjI impI)
  show "GenerateAliases E flags aliases dir s =
     (case processFileContent E aliases dir s of
        (Ok allFileContents, s1) \<Rightarrow>
          (case dispatchFlags E flags aliases dir allFileContents s1 of
             (Ok dispatched, s2) \<Rightarrow> (Ok (aliasesFor dispatched), s2)
           | (Err e, s2) \<Rightarrow> (Err e, s2)
           | (Panic p, s2) \<Rightarrow> (Panic p, s2))
      | (Err e, s1) \<Rightarrow> (Err e, s1)
      | (Panic p, s1) \<Rightarrow> (Panic p, s1))"
    by (rule GenerateAliases_dispatch)
next
  assume "processFileContent E aliases dir s = (Ok c, sa)"
  from processFileContent_cache [OF this]
  show "world sa = world s" and "dom c = set (cachedPaths E (world s) dir aliases)"
    and "\<forall>path\<in>dom c. \<exists>data. ReadFile E (world s) path = Inr data \<and> c path = Some data"
    by simp_all
next
  assume "processFileContent E aliases dir s = (Ok c, sa) \<and>
    dispatchFlags E flags aliases dir c sa = (r, sb)"
  then have "dispatchFlags E flags aliases dir c sa = (r, sb)" by simp
  then show "\<exists>evs. trace sb = trace sa @ evs \<and> filesRead evs = [] \<and> filesChecked evs = []"
    by (rule dispatchFlags_quiet)
qed

theorem GenerateAliases_dedupes_dispatched_witness:
  "(\<exists>m s'. GenerateAliases exampleEnv [''my-flag''] exampleRules ''/repo'' exampleState = (Ok m, s') \<and>
       m ''my-flag'' = Some [''my-flag'', ''myFlag''] \<and> m ''other'' = None \<and>
       filesRead (trace s') = [''/repo/a.txt'', ''/repo/b.txt'']) \<and>
   dom exampleCache = {''/repo/a.txt'', ''/repo/b.txt''} \<and>
   cachedPaths exampleEnv (world exampleState) ''/repo'' exampleRules =
     [''/repo/a.txt'', ''/repo/a.txt'', ''/repo/b.txt'']"
proof -
  let ?cmd = "\<lparr>Path = ''cat'', Args = [''-''], Stdin = ''my-flag'', Dir = ''/repo'',
                Deadline = None\<rparr>"
  let ?sb = "\<lparr>world = world exampleState @ [(''/repo/aliases.log'', ''my-flag'')],
             trace = trace cachedState
                     @ [EvGlob ''/repo'' ''a.txt'', EvGlob ''/repo'' ''*'', EvRun ?cmd]\<rparr>"
  have cache: "processFileContent exampleEnv exampleRules ''/repo'' exampleState =
                 (Ok exampleCache, cachedState)"
    by (simp add: exampleRules_def example_defs run_defs cachedState_def)
  have dispatch: "dispatchFlags exampleEnv [''my-flag''] exampleRules ''/repo'' exampleCache
                    cachedState =
                  (Ok [(''my-flag'', [''my-flag'', ''myFlag'', ''my-flag'', ''my-flag''])], ?sb)"
    by (simp add: exampleRules_def example_defs run_defs cachedState_def subst_group)
  have paths: "cachedPaths exampleEnv (world exampleState) ''/repo'' exampleRules =
     [''/repo/a.txt'', ''/repo/a.txt'', ''/repo/b.txt'']"
    by (simp add: cachedPaths_def matchedPaths_def exampleRules_def example_defs)
  note inst = GenerateAliases_dedupes_dispatched
    [where E = exampleEnv and flags = "[''my-flag'']" and aliases = exampleRules
       and dir = "''/repo''" and s = exampleState and c = exampleCache and sa = cachedState
       and r = "Ok [(''my-flag'', [''my-flag'', ''myFlag'', ''my-flag'', ''my-flag''])]"
       and sb = ?sb]
  from inst [THEN conjunct1]
  have run: "GenerateAliases exampleEnv [''my-flag''] exampleRules ''/repo'' exampleState =
     (Ok (aliasesFor [(''my-flag'', [''my-flag'', ''myFlag'', ''my-flag'', ''my-flag''])]), ?sb)"
    by (simp only: cache dispatch prod.case outcome.case)
  from inst [THEN conjunct2, THEN conjunct1, rule_format, OF cache]
  have "dom exampleCache = set (cachedPaths exampleEnv (world exampleState) ''/repo'' exampleRules)"
    by simp
  then have d: "dom exampleCache = {''/repo/a.txt'', ''/repo/b.txt''}"
    by (simp add: paths)
  from inst [THEN conjunct2, THEN conjunct2, rule_format, OF conjI [OF cache dispatch]]
  obtain evs where "trace ?sb = trace cachedState @ evs" and "filesRead evs = []"
    by blast
  then have "filesRead (trace ?sb) = filesRead (trace cachedState)"
    by (simp add: filesRead_append)
  then have t: "filesRead (trace ?sb) = [''/repo/a.txt'', ''/repo/b.txt'']"
    by (simp add: cachedState_def)
  have e: "aliasesFor [(''my-flag'', [''my-flag'', ''myFlag'', ''my-flag'', ''my-flag''])]
             ''my-flag'' = Some [''my-flag'', ''myFlag'']"
    "aliasesFor [(''my-flag'', [''my-flag'', ''myFlag'', ''my-flag'', ''my-flag''])]
             ''other'' = None"
    by (simp_all add: aliasesFor_def)
  from run e t have "\<exists>m s'. GenerateAliases exampleEnv [''my-flag''] exampleRules ''/repo''
         exampleState = (Ok m, s') \<and>
       m ''my-flag'' = Some [''my-flag'', ''myFlag''] \<and> m ''other'' = None \<and>
       filesRead (trace s') = [''/repo/a.txt'', ''/repo/b.txt'']"
    by blast
  with d paths show ?thesis by blast
qed

subsection \<open>A template that does not compile\<close>

text \<open>
  Claim C4, as the code has it. For every file-pattern rule whose globs expand and that holds
  a template that does not compile after the substitution of the flag key, the templates
  before it compiling, \<^verbatim>\<open>generateAlias\<close> does not return an error: \<^verbatim>\<open>regexp.MustCompile\<close>
  panics. The panic is terminal for the whole call: when the dispatch is reached,
  \<^verbatim>\<open>GenerateAliases\<close> ends with that panic and returns neither a mapping nor an error.
\<close>

theorem invalid_pattern_panics:
  "(Canonical E (Type a) = options_FilePattern \<and>
    concatFiles E dir c (Paths a) [] s = (Ok fileContents, s') \<and>
    Patterns a = patternsBefore @ p # patternsAfter \<and>
    (\<forall>q\<in>set patternsBefore. Compiles E (ReplaceAll q FLAG_KEY flag)) \<and>
    \<not> Compiles E (ReplaceAll p FLAG_KEY flag) \<longrightarrow>
      generateAlias E a flag dir c s =
        (Panic (MustCompilePanic (ReplaceAll p FLAG_KEY flag)), s')) \<and>
   (processFileContent E (rulesBefore @ a # rulesAfter) dir sz = (Ok c, sa) \<and>
    applyFlags E flagsBefore (rulesBefore @ a # rulesAfter) dir c Map.empty sa =
      (Ok reta, sb) \<and>
    applyRules E rulesBefore flag dir c reta sb = (Ok retb, s) \<and>
    generateAlias E a flag dir c s = (Panic pn, s') \<longrightarrow>
      GenerateAliases E (flagsBefore @ flag # flagsAfter) (rulesBefore @ a # rulesAfter) dir sz =
        (Panic pn, s'))"
  by (simp add: GenerateAliases_aborts_Panic) (simp add: generateAlias_def matchPatterns_panics)

theorem invalid_pattern_panics_witness:
  "GenerateAliases exampleEnv [''f''] [kebabRule, badPatternRule] ''/repo'' exampleState =
     (Panic (MustCompilePanic ''(f''),
      cachedState\<lparr>trace := trace cachedState @ [EvGlob ''/repo'' ''a.txt'', EvGlob ''/repo'' ''*'']\<rparr>)"
proof -
  let ?s' = "cachedState\<lparr>trace := trace cachedState @ [EvGlob ''/repo'' ''a.txt'', EvGlob ''/repo'' ''*'']\<rparr>"
  have kind: "Canonical exampleEnv (Type badPatternRule) = options_FilePattern"
    by (simp add: example_defs)
  have buffer: "concatFiles exampleEnv ''/repo'' exampleCache (Paths badPatternRule) [] cachedState =
     (Ok ''my-flmy-flag=myFlag;'', ?s')"
    by (simp add: example_defs model_defs cachedState_def)
  have patterns: "Patterns badPatternRule = [''FLAG_KEY=(myFlag)''] @ ''(FLAG_KEY'' # []"
    by (simp add: example_defs)
  have before: "\<forall>q\<in>set [''FLAG_KEY=(myFlag)'']. Compiles exampleEnv (ReplaceAll q FLAG_KEY ''f'')"
    by (simp add: example_defs model_defs ReplaceAll.simps)
  have bad: "\<not> Compiles exampleEnv (ReplaceAll ''(FLAG_KEY'' FLAG_KEY ''f'')"
    by (simp add: example_defs model_defs ReplaceAll.simps)
  have subst: "ReplaceAll ''(FLAG_KEY'' FLAG_KEY ''f'' = ''(f''"
    by (simp add: model_defs ReplaceAll.simps)
  have panic: "generateAlias exampleEnv badPatternRule ''f'' ''/repo'' exampleCache cachedState =
     (Panic (MustCompilePanic ''(f''), ?s')"
    using invalid_pattern_panics [THEN conjunct1, rule_format,
        OF conjI [OF kind conjI [OF buffer conjI [OF patterns conjI [OF before bad]]]]]
    by (simp only: subst)
  have cache: "processFileContent exampleEnv ([kebabRule] @ badPatternRule # []) ''/repo'' exampleState =
     (Ok exampleCache, cachedState)"
    by (simp add: example_defs model_defs cachedState_def)
  have flags: "applyFlags exampleEnv [] ([kebabRule] @ badPatternRule # []) ''/repo'' exampleCache
       Map.empty cachedState = (Ok Map.empty, cachedState)"
    by simp
  have rules: "applyRules exampleEnv [kebabRule] ''f'' ''/repo'' exampleCache Map.empty cachedState =
     (Ok [''f'' \<mapsto> [''f'']], cachedState)"
    by (simp add: example_defs model_defs)
  from invalid_pattern_panics [THEN conjunct2, rule_format,
        OF conjI [OF cache conjI [OF flags conjI [OF rules panic]]]]
  show ?thesis by simp
qed

text \<open>
  The claim as the specification words it fails: a template that does not compile makes the
  call panic, where the claim has it return a pattern-compilation error.
\<close>

theorem invalid_pattern_not_an_error:
  "fst (GenerateAliases exampleEnv [''f''] [filePatternRule\<lparr>Patterns := [''(FLAG_KEY'']\<rparr>]
          ''/repo'' exampleState) = Panic (MustCompilePanic ''(f'')"
  by (simp add: GenerateAliases_def example_defs model_defs ReplaceAll.simps)

subsection \<open>The argument vector of a command rule\<close>

lemma Split_not_Nil: "Split s sep \<noteq> []"
  by (induction s) (auto split: list.splits)

lemma Join_Cons: "ts \<noteq> [] \<Longrightarrow> Join (t # ts) sep = t @ sep # Join ts sep"
  by (cases ts) auto

lemma Join_Split: "Join (Split s sep) sep = s"
proof (induction s)
  case Nil
  then show ?case by simp
next
  case (Cons c cs)
  show ?case
  proof (cases "c = sep")
    case True
    with Cons show ?thesis by (simp add: Join_Cons Split_not_Nil)
  next
    case False
    obtain t ts where sp: "Split cs sep = t # ts"
      using Split_not_Nil [of cs sep] by (cases "Split cs sep") auto
    with Cons False show ?thesis
      by (cases ts) auto
  qed
qed

lemma Split_no_sep: "t \<in> set (Split s sep) \<Longrightarrow> sep \<notin> set t"
  by (induction s arbitrary: t) (auto split: if_splits list.splits)

text \<open>
  Claim C8, as the code has it. For every command rule that carries a command string, the
  argument vector is the command string split at every single space character: the first
  piece is the executable and the remaining pieces are the arguments. Joining the pieces with
  spaces gives the command string back and no piece holds a space, so two spaces in a row
  give an empty argument, a tab or a line feed separates nothing, and no shell quoting or
  escaping is interpreted. The process is run once, in the base directory, with the flag key
  as its standard input, and its output decides the result of the rule.
\<close>

theorem command_rule_splits_on_spaces:
  "Canonical E (Type a) = options_Command \<and> Command a = Some command \<longrightarrow>
     (\<exists>name args.
        Split command (CHR '' '') = name # args \<and>
        Join (name # args) (CHR '' '') = command \<and>
        (\<forall>t\<in>set (name # args). CHR '' '' \<notin> set t) \<and>
        trace (snd (generateAlias E a flag dir allFileContents s)) =
          trace s @ [EvRun \<lparr>Path = name, Args = args, Stdin = flag, Dir = dir,
                            Deadline = deadline (Timeout a)\<rparr>] \<and>
        fst (generateAlias E a flag dir allFileContents s) =
          (case fst (Output E \<lparr>Path = name, Args = args, Stdin = flag, Dir = dir,
                                Deadline = deadline (Timeout a)\<rparr> (world s)) of
             Inl cause \<Rightarrow> Err (CommandExecutionError cause)
           | Inr stdout \<Rightarrow>
               (case Unmarshal E stdout of
                  Inl cause \<Rightarrow> Err (CommandOutputError cause)
                | Inr ret \<Rightarrow> Ok ret)))"
proof
  assume h: "Canonical E (Type a) = options_Command \<and> Command a = Some command"
  obtain name args where sp: "Split command (CHR '' '') = name # args"
    using Split_not_Nil [of command "CHR '' ''"] by (cases "Split command (CHR '' '')") auto
  have j: "Join (name # args) (CHR '' '') = command"
    using Join_Split [of command "CHR '' ''"] sp by simp
  have n: "\<forall>t\<in>set (name # args). CHR '' '' \<notin> set t"
    using Split_no_sep [of _ command "CHR '' ''"] sp by simp
  have t: "trace (snd (generateAlias E a flag dir allFileContents s)) =
          trace s @ [EvRun \<lparr>Path = name, Args = args, Stdin = flag, Dir = dir,
                            Deadline = deadline (Timeout a)\<rparr>]"
    using h sp
    by (simp add: generateAlias_def runCommand_def record_event_def Let_def
        split: sum.splits)
  have r: "fst (generateAlias E a flag dir allFileContents s) =
          (case fst (Output E \<lparr>Path = name, Args = args, Stdin = flag, Dir = dir,
                                Deadline = deadline (Timeout a)\<rparr> (world s)) of
             Inl cause \<Rightarrow> Err (CommandExecutionError cause)
           | Inr stdout \<Rightarrow>
               (case Unmarshal E stdout of
                  Inl cause \<Rightarrow> Err (CommandOutputError cause)
                | Inr ret \<Rightarrow> Ok ret))"
    using h sp
    by (simp add: generateAlias_def runCommand_def Let_def split: sum.splits)
  from sp j n t r show "\<exists>name args.
        Split command (CHR '' '') = name # args \<and>
        Join (name # args) (CHR '' '') = command \<and>
        (\<forall>t\<in>set (name # args). CHR '' '' \<notin> set t) \<and>
        trace (snd (generateAlias E a flag dir allFileContents s)) =
          trace s @ [EvRun \<lparr>Path = name, Args = args, Stdin = flag, Dir = dir,
                            Deadline = deadline (Timeout a)\<rparr>] \<and>
        fst (generateAlias E a flag dir allFileContents s) =
          (case fst (Output E \<lparr>Path = name, Args = args, Stdin = flag, Dir = dir,
                                Deadline = deadline (Timeout a)\<rparr> (world s)) of
             Inl cause \<Rightarrow> Err (CommandExecutionError cause)
           | Inr stdout \<Rightarrow>
               (case Unmarshal E stdout of
                  Inl cause \<Rightarrow> Err (CommandOutputError cause)
                | Inr ret \<Rightarrow> Ok ret))"
    by blast
qed

theorem command_rule_splits_on_spaces_witness:
  "trace (snd (generateAlias exampleEnv (commandRule (Some ''ls -l  x'')) ''f'' ''/repo''
                 Map.empty exampleState)) =
     [EvRun \<lparr>Path = ''ls'', Args = [''-l'', [], ''x''], Stdin = ''f'', Dir = ''/repo'',
              Deadline = None\<rparr>]"
proof -
  have kind: "Canonical exampleEnv (Type (commandRule (Some ''ls -l  x''))) = options_Command"
    by (simp add: example_defs)
  have command: "Command (commandRule (Some ''ls -l  x'')) = Some ''ls -l  x''"
    by (simp add: example_defs)
  have tokens: "Split ''ls -l  x'' (CHR '' '') = [''ls'', ''-l'', [], ''x'']"
    by simp
  from command_rule_splits_on_spaces [rule_format, OF conjI [OF kind command]]
  obtain name args where "Split ''ls -l  x'' (CHR '' '') = name # args"
    and t: "trace (snd (generateAlias exampleEnv (commandRule (Some ''ls -l  x'')) ''f'' ''/repo''
                 Map.empty exampleState)) =
          trace exampleState @ [EvRun \<lparr>Path = name, Args = args, Stdin = ''f'', Dir = ''/repo'',
                            Deadline = deadline (Timeout (commandRule (Some ''ls -l  x'')))\<rparr>]"
    by blast
  with tokens have "name = ''ls''" "args = [''-l'', [], ''x'']" by simp_all
  with t show ?thesis by (simp add: example_defs deadline_def)
qed

text \<open>
  The claim as the specification words it fails: a tab is whitespace, and the code does not
  split the command string there.
\<close>

theorem command_rule_tab_not_split:
  "whitespaceFields (''ls'' @ [CHR 0x09] @ ''-l'') = [''ls'', ''-l''] \<and>
   trace (snd (generateAlias exampleEnv (commandRule (Some (''ls'' @ [CHR 0x09] @ ''-l''))) ''f''
                 ''/repo'' Map.empty exampleState)) =
     [EvRun \<lparr>Path = ''ls'' @ [CHR 0x09] @ ''-l'', Args = [], Stdin = ''f'', Dir = ''/repo'',
              Deadline = None\<rparr>]"
  by (simp add: example_defs model_defs whitespaceFields_def isWhitespace_def)

subsection \<open>A command rule without a command string\<close>

lemma applyRules_Ok_commands:
  "applyRules E as f dir c ret s = (Ok ret', s') \<Longrightarrow> a \<in> set as \<Longrightarrow>
   Canonical E (Type a) = options_Command \<Longrightarrow> Command a \<noteq> None"
proof (induction as arbitrary: ret s)
  case Nil
  then show ?case by simp
next
  case (Cons b as)
  show ?case
  proof (cases "a = b")
    case True
    with Cons.prems show ?thesis
      by (auto simp: generateAlias_def split: prod.splits outcome.splits option.splits)
  next
    case False
    with Cons.prems Cons.IH show ?thesis
      by (auto split: prod.splits outcome.splits)
  qed
qed

text \<open>
  Claim C10, as the code has it. For every rule of command type the \<^verbatim>\<open>Command\<close> field is
  dereferenced unconditionally, before a process is started: with an absent command string
  \<^verbatim>\<open>generateAlias\<close> panics with a nil dereference, returns no error and calls nothing
  outside. So \<^verbatim>\<open>GenerateAliases\<close> returns a mapping for a list of flags that is not empty
  only when every rule of command type carries a command string.
\<close>

theorem absent_command_panics:
  "(Canonical E (Type a) = options_Command \<and> Command a = None \<longrightarrow>
      generateAlias E a flag dir allFileContents s = (Panic NilPointerDereference, s)) \<and>
   (GenerateAliases E flags aliases dir s = (Ok m, s') \<and> flags \<noteq> [] \<longrightarrow>
      (\<forall>r\<in>set aliases. Canonical E (Type r) = options_Command \<longrightarrow> Command r \<noteq> None))"
proof (intro conjI impI ballI)
  assume "Canonical E (Type a) = options_Command \<and> Command a = None"
  then show "generateAlias E a flag dir allFileContents s = (Panic NilPointerDereference, s)"
    by (simp add: generateAlias_def)
next
  fix r
  assume g: "GenerateAliases E flags aliases dir s = (Ok m, s') \<and> flags \<noteq> []"
    and r: "r \<in> set aliases" "Canonical E (Type r) = options_Command"
  from g obtain f fs where fl: "flags = f # fs" by (cases flags) auto
  from g fl obtain c s1 ret1 s2 where "applyRules E aliases f dir c Map.empty s1 = (Ok ret1, s2)"
    by (auto simp: GenerateAliases_def split: prod.splits outcome.splits)
  then show "Command r \<noteq> None"
    using r by (rule applyRules_Ok_commands)
qed

theorem absent_command_panics_witness:
  "generateAlias exampleEnv (commandRule None) ''f'' ''/repo'' Map.empty exampleState =
     (Panic NilPointerDereference, exampleState) \<and>
   Command (commandRule (Some ''cat'')) \<noteq> None"
proof -
  have kind: "Canonical exampleEnv (Type (commandRule None)) = options_Command \<and>
              Command (commandRule None) = None"
    by (simp add: example_defs)
  note first = absent_command_panics [THEN conjunct1, rule_format, OF kind]
  have run: "GenerateAliases exampleEnv [''f''] [kebabRule, commandRule (Some ''cat'')] ''/repo''
       exampleState =
     (Ok [''f'' \<mapsto> [''f'']],
      \<lparr>world = world exampleState @ [(''/repo/aliases.log'', ''f'')],
       trace = [EvRun \<lparr>Path = ''cat'', Args = [], Stdin = ''f'', Dir = ''/repo'',
                        Deadline = None\<rparr>]\<rparr>) \<and> [''f''] \<noteq> []"
    by (simp add: GenerateAliases_def example_defs model_defs)
  have inside: "commandRule (Some ''cat'') \<in> set [kebabRule, commandRule (Some ''cat'')]"
    by simp
  have kind': "Canonical exampleEnv (Type (commandRule (Some ''cat''))) = options_Command"
    by (simp add: example_defs)
  note second = absent_command_panics [THEN conjunct2, rule_format, OF run inside kind']
  from first second show ?thesis by (rule conjI)
qed

text \<open>
  The claim as it is worded fails: with no flag, or after an earlier failure, the call returns
  although a command rule has no command string.
\<close>

theorem absent_command_may_return:
  "fst (GenerateAliases exampleEnv [] [commandRule None] ''/repo'' exampleState) = Ok Map.empty \<and>
   fst (GenerateAliases exampleEnv [''f''] [commandRule (Some ''false''), commandRule None] ''/repo''
          exampleState) = Err (CommandExecutionError ''exit status 1'')"
  by (simp add: GenerateAliases_def example_defs model_defs)

end
